theory Spec2Isabelle
  imports Main "HOL-Library.Word"
begin

unbundle bit_operations_syntax

section \<open>Common primitives of the http transport (library/neh/http\_common.h)\<close>

text \<open>
  The header is embedded function by function. \<open>size_t\<close> is a 64-bit word, as the
  segment table \<open>T_[sizeof(size_t) * 8]\<close> of the container has 64 entries on the
  platforms the library is built for.
\<close>

type_synonym size_t = "64 word"

subsection \<open>TFdLimits\<close>

text \<open>
  \<^verbatim>\<open>
  struct TFdLimits {
      TFdLimits() : Soft(10000), Hard(15000) {}
      inline size_t Delta() const noexcept { return ExceedLimit(Hard, Soft); }
      inline static size_t ExceedLimit(size_t val, size_t limit) noexcept {
          return val > limit ? val - limit : 0;
      }
      volatile size_t Soft;
      volatile size_t Hard;
  };
  \<close>
\<close>

record TFdLimits =
  Soft :: size_t
  Hard :: size_t

definition TFdLimits_init :: TFdLimits where
  "TFdLimits_init = \<lparr>Soft = 10000, Hard = 15000\<rparr>"

definition ExceedLimit :: "size_t \<Rightarrow> size_t \<Rightarrow> size_t" where
  "ExceedLimit val limit = (if val > limit then val - limit else 0)"

definition Delta :: "TFdLimits \<Rightarrow> size_t" where
  "Delta l = ExceedLimit (Hard l) (Soft l)"

subsection \<open>Names of the request builders\<close>

text \<open>
  Each builder struct has a static \<open>Name()\<close> returning a string constant:
  \<open>AsStringBuf("http")\<close>, \<open>AsStringBuf("post")\<close> and \<open>AsStringBuf("full")\<close>.
\<close>

definition TRequestGet_Name :: string where
  "TRequestGet_Name = ''http''"

definition TRequestPost_Name :: string where
  "TRequestPost_Name = ''post''"

definition TRequestFull_Name :: string where
  "TRequestFull_Name = ''full''"

subsection \<open>Errors\<close>

text \<open>
  The failures the header's code can run into, as values: an access outside the segment
  table or outside a segment (undefined behaviour in the source), the exception of
  \<open>new\<close> when an array cannot be allocated, and the exception of the bounded memory
  stream when a write does not fit.
\<close>

datatype error = OutOfRange | BadAlloc | MemoryOutputExhausted

subsection \<open>TLockFreeSequence\<close>

text \<open>
  Modelled from the spec: \<open>GetValueBitCount\<close> (util/generic/bitops.h, not among the
  sources) is the bit length of its argument, the position of the highest set bit
  counted from one. The bit length of 0 is taken as 0; the source asserts a non-zero
  argument.
\<close>

fun bit_length :: "nat \<Rightarrow> nat" where
  "bit_length n = (if n = 0 then 0 else Suc (bit_length (n div 2)))"

declare bit_length.simps [simp del]

definition GetValueBitCount :: "size_t \<Rightarrow> size_t" where
  "GetValueBitCount v = of_nat (bit_length (unat v))"

text \<open>
  The container is the table \<open>T_\<close> of 64 segment pointers (\<open>None\<close> is the null
  pointer). The heap is part of the state: \<open>live\<close> lists the arrays allocated and not
  yet deleted with their element counts, \<open>next_addr\<close> is the next fresh address,
  \<open>deleted\<close> records every \<open>delete[]\<close> in order, and \<open>avail\<close> is the number of
  elements the free memory has room for. An address names one allocation: \<open>new\<close>
  never hands an address out twice. The elements themselves are not modelled: a
  reference \<open>T&\<close> is the pair of the array's address and the offset in it.
\<close>

type_synonym addr = nat

record state =
  T_table :: "nat \<Rightarrow> addr option"
  live :: "(addr \<times> nat) list"
  next_addr :: addr
  deleted :: "addr list"
  avail :: nat

text \<open>
  The constructor, \<open>memset((void*)T_, 0, sizeof(T_))\<close>, on an empty heap with room for
  \<open>k\<close> elements.
\<close>

definition TLockFreeSequence_init :: "nat \<Rightarrow> state" where
  "TLockFreeSequence_init k =
     \<lparr>T_table = (\<lambda>i. None), live = [], next_addr = 0, deleted = [], avail = k\<rparr>"

text \<open>
  \<open>new T[k]\<close> throws when the array cannot be allocated: always for \<open>2 ^ 63\<close> elements
  or more, which are more bytes than an object can have whatever the element type, and
  otherwise when the free memory is too small. \<open>delete[] p\<close> gives the elements of the
  array back.
\<close>

definition new_array :: "nat \<Rightarrow> state \<Rightarrow> error + addr \<times> state" where
  "new_array k s =
     (if k < 2 ^ 63 \<and> k \<le> avail s
      then Inr (next_addr s,
                s\<lparr>live := (next_addr s, k) # live s, next_addr := Suc (next_addr s),
                   avail := avail s - k\<rparr>)
      else Inl BadAlloc)"

definition delete_array :: "addr \<Rightarrow> state \<Rightarrow> state" where
  "delete_array p s =
     s\<lparr>live := filter (\<lambda>a. fst a \<noteq> p) (live s), deleted := p # deleted s,
        avail := avail s + sum_list (map snd (filter (\<lambda>a. fst a = p) (live s)))\<rparr>"

text \<open>
  Modelled from the spec: \<open>AtomicGet\<close> and \<open>AtomicCas\<close> (util/system/atomic.h, not
  among the sources) are the atomic read of a slot and the single atomic
  compare-and-exchange on it. For the slot \<open>t = T_ + n\<close>, \<open>AtomicCas(t, exchange,
  compare)\<close> stores \<open>exchange\<close> when the slot holds \<open>compare\<close>, and its result tells
  whether it did.
\<close>

definition AtomicGet :: "state \<Rightarrow> nat \<Rightarrow> addr option" where
  "AtomicGet s n = T_table s n"

definition AtomicCas :: "nat \<Rightarrow> addr option \<Rightarrow> addr option \<Rightarrow> state \<Rightarrow> bool \<times> state" where
  "AtomicCas n exchange compare s =
     (if T_table s n = compare then (True, s\<lparr>T_table := (T_table s)(n := exchange)\<rparr>)
      else (False, s))"

text \<open>
  \<^verbatim>\<open>
  inline T* GetList(size_t n) {
      T* volatile* t = T_ + n;
      while (!AtomicGet(*t)) {
          TArrayHolder<T> nt(new T[((size_t)1) << n]);
          if (AtomicCas(t, nt.Get(), nullptr)) {
              return nt.Release();
          }
      }
      return *t;
  }
  \<close>
  Run by one thread alone. An exception of \<open>new\<close> leaves the function, and the
  container is as it was. \<open>TArrayHolder\<close> (util/generic/ptr.h) owns the new array:
  after a failed exchange its destructor deletes the array and the loop goes round
  again, and \<open>Release\<close> hands the array out undeleted.
\<close>

function GetList :: "nat \<Rightarrow> state \<Rightarrow> error + addr \<times> state" where
  "GetList n s =
     (case AtomicGet s n of
        Some p \<Rightarrow> Inr (p, s)
      | None \<Rightarrow>
          (case new_array (2 ^ n) s of
             Inl e \<Rightarrow> Inl e
           | Inr a \<Rightarrow>
               (let c = AtomicCas n (Some (fst a)) None (snd a)
                in if fst c then Inr (fst a, snd c)
                   else GetList n (delete_array (fst a) (snd c)))))"
  by pat_completeness auto
termination
  by (relation "{}")
    (auto simp: AtomicGet_def AtomicCas_def new_array_def split: if_splits)

declare GetList.simps [simp del]

text \<open>
  \<^verbatim>\<open>
  inline T& Get(size_t n) {
      const size_t i = GetValueBitCount(n + 1) - 1;
      return GetList(i)[n + 1 - (((size_t)1) << i)];
  }
  \<close>
  All arithmetic is on \<open>size_t\<close>. The table has 64 slots, and \<open>GetList i\<close> allocates
  \<open>2 ^ i\<close> elements for segment \<open>i\<close>; an index outside either is the error
  \<open>OutOfRange\<close>. An exception of \<open>GetList\<close> leaves \<open>Get\<close> too.
\<close>

definition Get :: "size_t \<Rightarrow> state \<Rightarrow> error + ((addr \<times> nat) \<times> state)" where
  "Get n s =
     (let i = GetValueBitCount (n + 1) - 1 in
      if \<not> unat i < 64 then Inl OutOfRange
      else
        case GetList (unat i) s of
          Inl e \<Rightarrow> Inl e
        | Inr l \<Rightarrow>
            (let off = n + 1 - push_bit (unat i) 1
             in if unat off < 2 ^ unat i then Inr ((fst l, unat off), snd l)
                else Inl OutOfRange))"

text \<open>
  A sequence of calls of \<open>Get\<close> on one container. A call that raises \<open>BadAlloc\<close> has
  left the container as it was, and the sequence goes on; an index out of range ends
  it.
\<close>

fun Gets :: "size_t list \<Rightarrow> state \<Rightarrow> error + state" where
  "Gets [] s = Inr s"
| "Gets (m # ms) s =
     (case Get m s of
        Inl BadAlloc \<Rightarrow> Gets ms s
      | Inl e \<Rightarrow> Inl e
      | Inr r \<Rightarrow> Gets ms (snd r))"

text \<open>
  The segment and the offset of index \<open>n\<close> as the specification words them, on
  natural numbers: segment \<open>bit-length (n + 1) - 1\<close>, offset \<open>(n + 1) - 2 ^ segment\<close>.
\<close>

definition segment_of :: "nat \<Rightarrow> nat" where
  "segment_of n = bit_length (n + 1) - 1"

definition offset_of :: "nat \<Rightarrow> nat" where
  "offset_of n = (n + 1) - 2 ^ segment_of n"

text \<open>
  The heap and the container are well formed: every address handed out is live or
  deleted, never both, and no address is listed twice; a published segment \<open>i\<close> is a
  live array of \<open>2 ^ i\<close> elements, \<open>i\<close> is below 63, and two published segments are
  different arrays.
\<close>

definition heap_ok :: "state \<Rightarrow> bool" where
  "heap_ok m \<longleftrightarrow>
     distinct (map fst (live m)) \<and> distinct (deleted m) \<and>
     set (deleted m) \<inter> fst ` set (live m) = {} \<and>
     set (deleted m) \<union> fst ` set (live m) = {..<next_addr m}"

definition wf :: "state \<Rightarrow> bool" where
  "wf s \<longleftrightarrow>
     heap_ok s \<and>
     (\<forall>i a. T_table s i = Some a \<longrightarrow> i < 63 \<and> (a, 2 ^ i) \<in> set (live s)) \<and>
     (\<forall>i j a. T_table s i = Some a \<and> T_table s j = Some a \<longrightarrow> i = j)"

subsection \<open>TLockFreeSequence under racing threads\<close>

text \<open>
  The destructor deletes the array of every slot of the table; deleting a null pointer
  does nothing.
  \<^verbatim>\<open>
  inline ~TLockFreeSequence() {
      for (size_t i = 0; i < Y_ARRAY_SIZE(T_); ++i) {
          delete[] T_[i];
      }
  }
  \<close>
\<close>

definition TLockFreeSequence_destroy :: "state \<Rightarrow> state" where
  "TLockFreeSequence_destroy s =
     fold (\<lambda>i s. case T_table s i of None \<Rightarrow> s | Some p \<Rightarrow> delete_array p s) [0..<64] s"

text \<open>
  Threads running \<open>GetList(n)\<close> on one container. A thread is at one of the places of
  the function between two accesses to the shared state: \<open>Loop\<close> before the
  \<open>AtomicGet\<close> of the loop condition, \<open>Alloc\<close> before \<open>new\<close>, \<open>Cas a\<close> before the
  \<open>AtomicCas\<close> with the array \<open>a\<close> in its holder, \<open>Drop a\<close> after a failed exchange
  and before the holder deletes \<open>a\<close>, \<open>Ret\<close> after the loop and before the read of
  \<open>return *t\<close>, \<open>Done p\<close> when it has returned the pointer \<open>p\<close>, and \<open>Raised\<close> when
  the exception of \<open>new\<close> has taken it out of the function. One step of a thread is
  one access; the accesses are the operations of the single-threaded \<open>GetList\<close>
  above, each taken as atomic, and the steps of the threads interleave in any order. A
  thread that has left the function stays where it is.
\<close>

datatype pc = Loop | Alloc | Cas addr | Drop addr | Ret | Done "addr option" | Raised

fun thread_step :: "nat \<Rightarrow> state \<Rightarrow> pc \<Rightarrow> state \<times> pc" where
  "thread_step n m Loop = (case AtomicGet m n of None \<Rightarrow> (m, Alloc) | Some p \<Rightarrow> (m, Ret))"
| "thread_step n m Alloc =
     (case new_array (2 ^ n) m of Inl e \<Rightarrow> (m, Raised) | Inr a \<Rightarrow> (snd a, Cas (fst a)))"
| "thread_step n m (Cas a) =
     (let c = AtomicCas n (Some a) None m in (snd c, if fst c then Done (Some a) else Drop a))"
| "thread_step n m (Drop a) = (delete_array a m, Loop)"
| "thread_step n m Ret = (m, Done (T_table m n))"
| "thread_step n m (Done p) = (m, Done p)"
| "thread_step n m Raised = (m, Raised)"

text \<open>
  The shared state and the threads; \<open>step n i\<close> lets thread \<open>i\<close> take its next step,
  and \<open>run n sched\<close> follows a schedule, the list of the threads that step, in order.
  All \<open>T\<close> threads start at the head of the loop on a fresh container, on a heap with
  room for \<open>k\<close> elements.
\<close>

record cstate =
  mem :: state
  threads :: "pc list"

definition step :: "nat \<Rightarrow> nat \<Rightarrow> cstate \<Rightarrow> cstate" where
  "step n i c =
     (if i < length (threads c)
      then let r = thread_step n (mem c) (threads c ! i)
           in \<lparr>mem = fst r, threads = (threads c)[i := snd r]\<rparr>
      else c)"

fun run :: "nat \<Rightarrow> nat list \<Rightarrow> cstate \<Rightarrow> cstate" where
  "run n [] c = c"
| "run n (i # sched) c = run n sched (step n i c)"

definition race_init :: "nat \<Rightarrow> nat \<Rightarrow> cstate" where
  "race_init k T = \<lparr>mem = TLockFreeSequence_init k, threads = replicate T Loop\<rparr>"

text \<open>
  The invariant of the race. The arrays the threads hold in their holders and the
  published array are pairwise different and are exactly the live arrays; every
  address handed out is live or deleted, never both, and deleted at most once; and a
  thread past the loop has seen, or returned, the pointer of the slot.
\<close>

fun hold :: "pc \<Rightarrow> addr list" where
  "hold (Cas a) = [a]"
| "hold (Drop a) = [a]"
| "hold p = []"

definition held :: "pc list \<Rightarrow> addr list" where
  "held ts = concat (map hold ts)"

definition slot_list :: "state \<Rightarrow> nat \<Rightarrow> addr list" where
  "slot_list m n = (case T_table m n of None \<Rightarrow> [] | Some w \<Rightarrow> [w])"

definition returned_ok :: "state \<Rightarrow> nat \<Rightarrow> pc \<Rightarrow> bool" where
  "returned_ok m n p \<longleftrightarrow>
     (case p of Done r \<Rightarrow> r = T_table m n \<and> r \<noteq> None
              | Ret \<Rightarrow> T_table m n \<noteq> None
              | _ \<Rightarrow> True)"

definition left :: "pc \<Rightarrow> bool" where
  "left p \<longleftrightarrow> (case p of Done r \<Rightarrow> True | Raised \<Rightarrow> True | _ \<Rightarrow> False)"

definition inv :: "nat \<Rightarrow> cstate \<Rightarrow> bool" where
  "inv n c \<longleftrightarrow>
     heap_ok (mem c) \<and>
     distinct (slot_list (mem c) n @ held (threads c)) \<and>
     fst ` set (live (mem c)) = set (slot_list (mem c) n @ held (threads c)) \<and>
     (\<forall>j. j \<noteq> n \<longrightarrow> T_table (mem c) j = None) \<and>
     (\<forall>p\<in>set (threads c). returned_ok (mem c) n p)"

subsection \<open>Messages, locations and request buffers\<close>

text \<open>
  Modelled from the spec: \<open>TMessage\<close> (neh.h) and \<open>TParsedLocation\<close> (location.h)
  are declared outside the sources. A message carries its address and its raw data; of
  the parsed location the scheme, host, port and service strings are kept, each any
  string. Lengths of strings are natural numbers; the strings of a process fit its
  address space, so the \<open>size_t\<close> sums of lengths in the builders do not wrap.
\<close>

record TMessage =
  Addr :: string
  Data :: string

record TParsedLocation =
  Scheme :: string
  Host :: string
  Port :: string
  Service :: string

text \<open>
  A fragment is a pointer and a length. A pointer is an offset into one of the two
  buffers a builder can reach: the scratch region \<open>Mem\<close> of the request
  (\<open>MemPtr 0\<close> is \<open>~req->Mem\<close>) or the data of the message (\<open>DataPtr 0\<close> is
  \<open>~msg.Data\<close>).
  \<^verbatim>\<open>
  inline TRequestData(size_t memSize) : Mem(memSize) {}
  inline void SendTo(IOutputStream& io) const { io.Write(~Parts_, +Parts_); }
  inline void AddPart(const void* buf, size_t len) noexcept {
      Parts_.push_back(IOutputStream::TPart(buf, len));
  }
  \<close>
  \<open>SendTo\<close> is the sequence of bytes the stream receives: the bytes of every fragment,
  in order.
\<close>

datatype ptr = MemPtr nat | DataPtr nat

record TRequestData =
  Mem :: string
  Parts :: "(ptr \<times> nat) list"

definition TRequestData_init :: "nat \<Rightarrow> TRequestData" where
  "TRequestData_init memSize = \<lparr>Mem = replicate memSize (CHR 0x00), Parts = []\<rparr>"

definition AddPart :: "ptr \<Rightarrow> nat \<Rightarrow> TRequestData \<Rightarrow> TRequestData" where
  "AddPart buf len req = req\<lparr>Parts := Parts req @ [(buf, len)]\<rparr>"

fun part_bytes :: "TMessage \<Rightarrow> TRequestData \<Rightarrow> ptr \<times> nat \<Rightarrow> string" where
  "part_bytes msg req (MemPtr off, len) = take len (drop off (Mem req))"
| "part_bytes msg req (DataPtr off, len) = take len (drop off (Data msg))"

definition SendTo :: "TMessage \<Rightarrow> TRequestData \<Rightarrow> string" where
  "SendTo msg req = concat (map (part_bytes msg req) (Parts req))"

subsection \<open>The bounded memory stream\<close>

text \<open>
  Modelled from the spec: \<open>TMemoryOutput\<close> (util/stream/mem.h, not among the sources)
  is the bounds-checked cursor over a byte region: \<open>Buf\<close> is the position of the
  cursor and \<open>End\<close> the end of the region, both as offsets from \<open>~req->Mem\<close>. A write
  copies its bytes at the cursor and advances it; a write that would pass the end
  raises instead, and nothing is written. \<open>out << s\<close> writes the bytes of a string,
  \<open>out << c\<close> one character, and \<open>out << n\<close> for a \<open>size_t\<close> its decimal digits.
\<close>

record TMemoryOutput =
  Buf :: nat
  End :: nat

definition TMemoryOutput_init :: "nat \<Rightarrow> nat \<Rightarrow> TMemoryOutput" where
  "TMemoryOutput_init buf len = \<lparr>Buf = buf, End = buf + len\<rparr>"

definition DoWrite ::
  "string \<Rightarrow> TRequestData \<times> TMemoryOutput \<Rightarrow> error + TRequestData \<times> TMemoryOutput" where
  "DoWrite buf st =
     (let req = fst st; out = snd st in
      if Buf out + length buf \<le> End out
      then Inr (req\<lparr>Mem := take (Buf out) (Mem req) @ buf
                          @ drop (Buf out + length buf) (Mem req)\<rparr>,
                out\<lparr>Buf := Buf out + length buf\<rparr>)
      else Inl MemoryOutputExhausted)"

definition DoWriteC ::
  "char \<Rightarrow> TRequestData \<times> TMemoryOutput \<Rightarrow> error + TRequestData \<times> TMemoryOutput" where
  "DoWriteC c st =
     (let req = fst st; out = snd st in
      if Buf out < End out
      then Inr (req\<lparr>Mem := (Mem req)[Buf out := c]\<rparr>, out\<lparr>Buf := Buf out + 1\<rparr>)
      else Inl MemoryOutputExhausted)"

definition digit :: "nat \<Rightarrow> char" where
  "digit d = ''0123456789'' ! d"

fun decimal :: "nat \<Rightarrow> string" where
  "decimal n = (if n < 10 then [digit n] else decimal (n div 10) @ [digit (n mod 10)])"

declare decimal.simps [simp del]

text \<open>
  The operands of a chain \<open>out << a << b << ...\<close>, and the chain itself: the operands
  are written in order, and the first write that raises ends the chain.
\<close>

datatype item = Str string | Chr char | Num nat

fun put :: "item \<Rightarrow> TRequestData \<times> TMemoryOutput \<Rightarrow> error + TRequestData \<times> TMemoryOutput" where
  "put (Str s) st = DoWrite s st"
| "put (Chr c) st = DoWriteC c st"
| "put (Num n) st = DoWrite (decimal n) st"

fun puts ::
  "item list \<Rightarrow> TRequestData \<times> TMemoryOutput \<Rightarrow> error + TRequestData \<times> TMemoryOutput" where
  "puts [] st = Inr st"
| "puts (x # xs) st = (case put x st of Inl e \<Rightarrow> Inl e | Inr st' \<Rightarrow> puts xs st')"

subsection \<open>The request builders\<close>

definition CRLF :: string where
  "CRLF = [CHR 0x0D, CHR 0x0A]"

text \<open>
  \<^verbatim>\<open>
  static TRequestData::TPtr Build(const TMessage& msg, const TParsedLocation& loc) {
      TRequestData::TPtr req(new TRequestData(50 + +loc.Service + +msg.Data + +loc.Host));
      TMemoryOutput out(~req->Mem, +req->Mem);
      out << AsStringBuf("GET /") << loc.Service;
      if (!!msg.Data) {
          out << '?' << msg.Data;
      }
      out << AsStringBuf(" HTTP/1.1\r\nHost: ") << loc.Host;
      if (!!loc.Port) {
          out << AsStringBuf(":") << loc.Port;
      }
      out << AsStringBuf("\r\n\r\n");
      req->AddPart(~req->Mem, out.Buf() - ~req->Mem);
      return req;
  }
  \<close>
\<close>

definition TRequestGet_Build :: "TMessage \<Rightarrow> TParsedLocation \<Rightarrow> error + TRequestData" where
  "TRequestGet_Build msg loc =
     (let req = TRequestData_init
                  (50 + length (Service loc) + length (Data msg) + length (Host loc));
          out = TMemoryOutput_init 0 (length (Mem req))
      in case puts ([Str ''GET /'', Str (Service loc)]
                    @ (if Data msg \<noteq> [] then [Chr CHR ''?'', Str (Data msg)] else [])
                    @ [Str ('' HTTP/1.1'' @ CRLF @ ''Host: ''), Str (Host loc)]
                    @ (if Port loc \<noteq> [] then [Str '':'', Str (Port loc)] else [])
                    @ [Str (CRLF @ CRLF)]) (req, out) of
           Inl e \<Rightarrow> Inl e
         | Inr st \<Rightarrow> Inr (AddPart (MemPtr 0) (Buf (snd st) - 0) (fst st)))"

text \<open>
  \<^verbatim>\<open>
  static TRequestData::TPtr Build(const TMessage& msg, const TParsedLocation& loc) {
      TRequestData::TPtr req(new TRequestData(100 + +loc.Service + +loc.Host));
      TMemoryOutput out(~req->Mem, +req->Mem);
      out << AsStringBuf("POST /") << loc.Service
          << AsStringBuf(" HTTP/1.1\r\nHost: ") << loc.Host;
      if (!!loc.Port) {
          out << AsStringBuf(":") << loc.Port;
      }
      out << AsStringBuf("\r\nContent-Length: ") << +msg.Data << AsStringBuf("\r\n\r\n");
      req->AddPart(~req->Mem, out.Buf() - ~req->Mem);
      req->AddPart(~msg.Data, +msg.Data);
      return req;
  }
  \<close>
\<close>

definition TRequestPost_Build :: "TMessage \<Rightarrow> TParsedLocation \<Rightarrow> error + TRequestData" where
  "TRequestPost_Build msg loc =
     (let req = TRequestData_init (100 + length (Service loc) + length (Host loc));
          out = TMemoryOutput_init 0 (length (Mem req))
      in case puts ([Str ''POST /'', Str (Service loc),
                     Str ('' HTTP/1.1'' @ CRLF @ ''Host: ''), Str (Host loc)]
                    @ (if Port loc \<noteq> [] then [Str '':'', Str (Port loc)] else [])
                    @ [Str (CRLF @ ''Content-Length: ''), Num (length (Data msg)),
                       Str (CRLF @ CRLF)]) (req, out) of
           Inl e \<Rightarrow> Inl e
         | Inr st \<Rightarrow>
             Inr (AddPart (DataPtr 0) (length (Data msg))
                    (AddPart (MemPtr 0) (Buf (snd st) - 0) (fst st))))"

text \<open>
  \<^verbatim>\<open>
  static TRequestData::TPtr Build(const TMessage& msg, const TParsedLocation&) {
      TRequestData::TPtr req(new TRequestData(0));
      req->AddPart(~msg.Data, +msg.Data);
      return req;
  }
  \<close>
\<close>

definition TRequestFull_Build :: "TMessage \<Rightarrow> TParsedLocation \<Rightarrow> TRequestData" where
  "TRequestFull_Build msg loc =
     AddPart (DataPtr 0) (length (Data msg)) (TRequestData_init 0)"

text \<open>
  The wire formats as the specification words them: the GET request, and the header
  block of the POST request.
\<close>

definition GET_request :: "TMessage \<Rightarrow> TParsedLocation \<Rightarrow> string" where
  "GET_request msg loc =
     ''GET /'' @ Service loc @ (if Data msg \<noteq> [] then ''?'' @ Data msg else [])
     @ '' HTTP/1.1'' @ CRLF @ ''Host: '' @ Host loc
     @ (if Port loc \<noteq> [] then '':'' @ Port loc else []) @ CRLF @ CRLF"

definition POST_header :: "TMessage \<Rightarrow> TParsedLocation \<Rightarrow> string" where
  "POST_header msg loc =
     ''POST /'' @ Service loc @ '' HTTP/1.1'' @ CRLF @ ''Host: '' @ Host loc
     @ (if Port loc \<noteq> [] then '':'' @ Port loc else [])
     @ CRLF @ ''Content-Length: '' @ decimal (length (Data msg)) @ CRLF @ CRLF"

text \<open>
  The bytes an operand, and a chain of operands, adds to the stream; and a write of
  these bytes in one piece, which the proofs compare the chain with.
\<close>

fun render :: "item \<Rightarrow> string" where
  "render (Str s) = s"
| "render (Chr c) = [c]"
| "render (Num n) = decimal n"

definition rendered :: "item list \<Rightarrow> string" where
  "rendered xs = concat (map render xs)"

definition wrote ::
  "string \<Rightarrow> TRequestData \<times> TMemoryOutput \<Rightarrow> error + TRequestData \<times> TMemoryOutput" where
  "wrote r st =
     (if Buf (snd st) + length r \<le> End (snd st)
      then Inr ((fst st)\<lparr>Mem := take (Buf (snd st)) (Mem (fst st)) @ r @
                    drop (Buf (snd st) + length r) (Mem (fst st))\<rparr>,
                (snd st)\<lparr>Buf := Buf (snd st) + length r\<rparr>)
      else Inl MemoryOutputExhausted)"

text \<open>
  The message and the location of the examples: the address
  \<open>http://example.com/search\<close>, with the data and the port string left open.
\<close>

definition example_msg :: "string \<Rightarrow> TMessage" where
  "example_msg d = \<lparr>Addr = ''http://example.com/search'', Data = d\<rparr>"

definition example_loc :: "string \<Rightarrow> TParsedLocation" where
  "example_loc p =
     \<lparr>Scheme = ''http'', Host = ''example.com'', Port = p, Service = ''search''\<rparr>"

subsection \<open>MakeFullRequest: the request type\<close>

text \<open>
  \<^verbatim>\<open>
  enum class ERequestType { Any = 0, Post, Get, Put, Delete };
  \<close>
  Modelled from the spec: the body of \<open>MakeFullRequest\<close> (http\_common.cpp) is not
  among the sources; the header declares it with the note that a request type \<open>Any\<close>
  is POST, unless the content is empty and the scheme of the message's address is
  http, https or http2, when it is GET. The other request types are used as given.
\<close>

datatype ERequestType = ReqAny | ReqPost | ReqGet | ReqPut | ReqDelete

definition ResolveRequestType :: "ERequestType \<Rightarrow> string \<Rightarrow> string \<Rightarrow> ERequestType" where
  "ResolveRequestType reqType content scheme =
     (if reqType = ReqAny
      then (if content = [] \<and> scheme \<in> set [''http'', ''https'', ''http2''] then ReqGet
            else ReqPost)
      else reqType)"

section \<open>Connection limits\<close>

lemma ExceedLimit_unat: "unat (ExceedLimit v l) = unat v - unat l"
proof (cases "l < v")
  case True
  then have "l \<le> v" by simp
  then have "unat (v - l) = unat v - unat l" by (rule unat_sub)
  with True show ?thesis by (simp add: ExceedLimit_def)
next
  case False
  then have "unat v \<le> unat l" by (simp add: word_le_nat_alt not_less)
  with False show ?thesis by (simp add: ExceedLimit_def)
qed

text \<open>
  Claim C9. \<open>Delta()\<close> is \<open>max (Hard - Soft) 0\<close> in exact arithmetic, for every pair
  of limits: it is \<open>Hard - Soft\<close> when \<open>Hard > Soft\<close> and \<open>0\<close> otherwise, and never
  wraps around. The default limits are 10000 and 15000 with a delta of 5000, and the
  inverted pair 10000/8000 has delta 0.
\<close>

theorem Delta_exact:
  "uint (Delta l) = max (uint (Hard l) - uint (Soft l)) 0
   \<and> unat (Delta l) = unat (Hard l) - unat (Soft l)
   \<and> Delta l = (if Hard l > Soft l then Hard l - Soft l else 0)
   \<and> Soft TFdLimits_init = 10000 \<and> Hard TFdLimits_init = 15000
   \<and> Delta TFdLimits_init = 5000
   \<and> Delta \<lparr>Soft = 10000, Hard = 8000\<rparr> = 0"
proof -
  have n: "unat (Delta l) = unat (Hard l) - unat (Soft l)"
    by (simp add: Delta_def ExceedLimit_unat)
  have m: "int (a - b) = max (int a - int b) 0" for a b :: nat
    by arith
  have "uint (Delta l) = int (unat (Delta l))" by simp
  also have "\<dots> = int (unat (Hard l) - unat (Soft l))" by (simp only: n)
  also have "\<dots> = max (int (unat (Hard l)) - int (unat (Soft l))) 0" by (rule m)
  also have "\<dots> = max (uint (Hard l) - uint (Soft l)) 0" by simp
  finally have i: "uint (Delta l) = max (uint (Hard l) - uint (Soft l)) 0" .
  have d: "Delta TFdLimits_init = 5000"
    by (simp add: Delta_def ExceedLimit_def TFdLimits_init_def)
  have z: "Delta \<lparr>Soft = 10000, Hard = 8000\<rparr> = 0"
    by (simp add: Delta_def ExceedLimit_def)
  show ?thesis using n i d z
    by (simp add: Delta_def ExceedLimit_def TFdLimits_init_def)
qed

section \<open>Builder names\<close>

text \<open>
  Claim C10. The protocol identifiers of the builders are fixed: the GET builder is
  named \<open>http\<close>, the POST builder \<open>post\<close> and the FULL builder \<open>full\<close>.
\<close>

theorem builder_names:
  "TRequestGet_Name = ''http'' \<and> TRequestPost_Name = ''post'' \<and> TRequestFull_Name = ''full''"
  by (simp add: TRequestGet_Name_def TRequestPost_Name_def TRequestFull_Name_def)

section \<open>The growable container, run by one thread\<close>

lemma bit_length_0 [simp]: "bit_length 0 = 0"
  by (simp add: bit_length.simps)

lemma bit_length_pos: "0 < n \<Longrightarrow> 0 < bit_length n"
  by (subst bit_length.simps) simp

lemma bit_length_bounds: "0 < n \<Longrightarrow> 2 ^ (bit_length n - 1) \<le> n \<and> n < 2 ^ bit_length n"
proof (induction n rule: bit_length.induct)
  case (1 n)
  show ?case
  proof (cases "n div 2 = 0")
    case True
    with "1.prems" have "n = 1" by presburger
    then show ?thesis by (simp add: bit_length.simps)
  next
    case False
    then have pos: "0 < n div 2" by simp
    from "1.prems" have n0: "n \<noteq> 0" by simp
    from "1.IH" [OF n0 pos]
    have lo: "2 ^ (bit_length (n div 2) - 1) \<le> n div 2"
      and hi: "n div 2 < 2 ^ bit_length (n div 2)" by simp_all
    have bl: "bit_length n = Suc (bit_length (n div 2))"
      using n0 by (subst bit_length.simps) simp
    from bit_length_pos [OF pos] obtain k where k: "bit_length (n div 2) = Suc k"
      by (cases "bit_length (n div 2)") simp_all
    from lo k have "2 * 2 ^ k \<le> n" by simp
    moreover from hi have "n < 2 * 2 ^ bit_length (n div 2)" by presburger
    ultimately show ?thesis by (simp add: bl k)
  qed
qed

lemma bit_length_unique:
  assumes "2 ^ k \<le> n" "n < 2 ^ Suc k"
  shows "bit_length n = Suc k"
proof -
  from assms(1) have pos: "0 < n"
    by (metis less_le_trans zero_less_numeral zero_less_power)
  from bit_length_bounds [OF pos]
  have lo: "2 ^ (bit_length n - 1) \<le> n" and hi: "n < 2 ^ bit_length n" by simp_all
  from bit_length_pos [OF pos] obtain j where j: "bit_length n = Suc j"
    by (cases "bit_length n") simp_all
  from lo j assms(2) have "(2::nat) ^ j < 2 ^ Suc k" by simp
  then have "j < Suc k" by (simp only: power_strict_increasing_iff one_less_numeral_iff semiring_norm)
  moreover from hi j assms(1) have "(2::nat) ^ k < 2 ^ Suc j" by simp
  then have "k < Suc j" by (simp only: power_strict_increasing_iff one_less_numeral_iff semiring_norm)
  ultimately show ?thesis using j by simp
qed


lemma unat_succ: "n + 1 \<noteq> 0 \<Longrightarrow> unat (n + 1) = Suc (unat n)" for n :: size_t
  using unatSuc [of n] by (simp add: add.commute)

lemma segment_lt_64:
  assumes "m < 2 ^ 64"
  shows "bit_length m - 1 < 64"
proof (cases "m = 0")
  case True
  then show ?thesis by simp
next
  case False
  then have "2 ^ (bit_length m - 1) \<le> m" using bit_length_bounds [of m] by simp
  with assms have "(2::nat) ^ (bit_length m - 1) < 2 ^ 64" by simp
  then show ?thesis by (simp only: power_strict_increasing_iff one_less_numeral_iff semiring_norm)
qed

lemma Get_segment:
  fixes n :: size_t
  assumes "n + 1 \<noteq> 0"
  shows "unat (GetValueBitCount (n + 1) - 1) = segment_of (unat n)"
proof -
  let ?m = "Suc (unat n)"
  have m: "unat (n + 1) = ?m" using assms by (rule unat_succ)
  have "?m < 2 ^ 64" using unsigned_less [of "n + 1", where 'a = nat] by (simp add: m)
  then have lt: "bit_length ?m - 1 < 64" by (rule segment_lt_64)
  have pos: "0 < bit_length ?m" by (rule bit_length_pos) simp
  then have one: "(1::size_t) \<le> of_nat (bit_length ?m)"
    using lt by (simp add: word_le_nat_alt unat_of_nat)
  have "unat (GetValueBitCount (n + 1) - 1) = unat (of_nat (bit_length ?m) :: size_t) - 1"
    using one by (simp add: GetValueBitCount_def m unat_sub)
  also have "\<dots> = bit_length ?m - 1" using lt by (simp add: unat_of_nat)
  finally show ?thesis by (simp add: segment_of_def)
qed

lemma Get_offset:
  fixes n :: size_t
  assumes "n + 1 \<noteq> 0"
  shows "unat (n + 1 - push_bit (segment_of (unat n)) 1) = offset_of (unat n)"
    and "offset_of (unat n) < 2 ^ segment_of (unat n)"
    and "segment_of (unat n) < 64"
proof -
  let ?m = "Suc (unat n)"
  let ?i = "segment_of (unat n)"
  have m: "unat (n + 1) = ?m" using assms by (rule unat_succ)
  have m64: "?m < 2 ^ 64" using unsigned_less [of "n + 1", where 'a = nat] by (simp add: m)
  then show lt: "?i < 64" unfolding segment_of_def using segment_lt_64 [of ?m] by simp
  have b: "2 ^ ?i \<le> ?m \<and> ?m < 2 ^ bit_length ?m"
    using bit_length_bounds [of ?m] by (simp add: segment_of_def)
  have pos: "0 < bit_length ?m" by (rule bit_length_pos) simp
  then have bl: "bit_length ?m = Suc ?i" by (simp add: segment_of_def)
  have p: "unat (push_bit ?i 1 :: size_t) = 2 ^ ?i"
  proof -
    from lt have less: "(2::nat) ^ ?i < 2 ^ 64"
      by (intro power_strict_increasing) simp_all
    have "(push_bit ?i 1 :: size_t) = of_nat (2 ^ ?i)" by simp
    then have "unat (push_bit ?i 1 :: size_t) = 2 ^ ?i mod 2 ^ 64"
      by (simp only: unat_of_nat) simp
    also have "\<dots> = 2 ^ ?i" using less by (rule mod_less)
    finally show ?thesis .
  qed
  have le: "push_bit ?i 1 \<le> n + 1"
    using b by (simp only: word_le_nat_alt p m)
  have "unat (n + 1 - push_bit ?i 1) = unat (n + 1) - unat (push_bit ?i 1 :: size_t)"
    using le by (rule unat_sub)
  then show "unat (n + 1 - push_bit ?i 1) = offset_of (unat n)"
    by (simp only: p m offset_of_def Suc_eq_plus1)
  from b bl have "?m < 2 * 2 ^ ?i" by simp
  then have "?m - 2 ^ ?i < 2 ^ ?i" by linarith
  then show "offset_of (unat n) < 2 ^ ?i" by (simp add: offset_of_def)
qed


lemma segment_offset_sum: "2 ^ segment_of a + offset_of a = a + 1"
proof -
  have "2 ^ (bit_length (a + 1) - 1) \<le> a + 1"
    using bit_length_bounds [of "a + 1"] by simp
  then show ?thesis by (simp add: offset_of_def segment_of_def)
qed

lemma segment_offset_inj:
  assumes "segment_of a = segment_of b" "offset_of a = offset_of b"
  shows "a = b"
proof -
  have "a + 1 = 2 ^ segment_of a + offset_of a" by (simp only: segment_offset_sum)
  also have "\<dots> = 2 ^ segment_of b + offset_of b" by (simp only: assms)
  also have "\<dots> = b + 1" by (simp only: segment_offset_sum)
  finally show ?thesis by simp
qed

lemma pow_lt_63: "(2::nat) ^ i < 2 ^ 63 \<longleftrightarrow> i < 63"
  by (rule power_strict_increasing_iff) simp

lemma new_array_eq:
  "new_array (2 ^ i) s =
     (if i < 63 \<and> 2 ^ i \<le> avail s
      then Inr (next_addr s,
                s\<lparr>live := (next_addr s, 2 ^ i) # live s, next_addr := Suc (next_addr s),
                   avail := avail s - 2 ^ i\<rparr>)
      else Inl BadAlloc)"
  unfolding new_array_def pow_lt_63 ..

lemma GetList_eq:
  "GetList i s =
     (case T_table s i of
        Some p \<Rightarrow> Inr (p, s)
      | None \<Rightarrow>
          (if i < 63 \<and> 2 ^ i \<le> avail s
           then Inr (next_addr s,
                     s\<lparr>live := (next_addr s, 2 ^ i) # live s, next_addr := Suc (next_addr s),
                        avail := avail s - 2 ^ i,
                        T_table := (T_table s)(i := Some (next_addr s))\<rparr>)
           else Inl BadAlloc))"
proof (cases "T_table s i")
  case (Some p)
  then show ?thesis by (subst GetList.simps) (simp add: AtomicGet_def)
next
  case None
  show ?thesis
  proof (cases "i < 63 \<and> 2 ^ i \<le> avail s")
    case False
    then have c: "(i < 63 \<and> 2 ^ i \<le> avail s) \<longleftrightarrow> False" by simp
    have "GetList i s = Inl BadAlloc"
      by (subst GetList.simps) (simp add: AtomicGet_def new_array_eq None c)
    then show ?thesis by (simp add: None c)
  next
    case True
    then have c: "(i < 63 \<and> 2 ^ i \<le> avail s) \<longleftrightarrow> True" by simp
    have "GetList i s =
        Inr (next_addr s,
             s\<lparr>live := (next_addr s, 2 ^ i) # live s, next_addr := Suc (next_addr s),
                avail := avail s - 2 ^ i,
                T_table := (T_table s)(i := Some (next_addr s))\<rparr>)"
      by (subst GetList.simps)
        (simp add: AtomicGet_def AtomicCas_def new_array_eq Let_def None c)
    then show ?thesis by (simp add: None c)
  qed
qed

lemma GetList_Inr:
  assumes "GetList i s = Inr (a, s1)"
  shows "T_table s1 i = Some a"
    and "\<And>j p. T_table s j = Some p \<Longrightarrow> T_table s1 j = Some p"
    and "\<And>x. x \<in> set (live s) \<Longrightarrow> x \<in> set (live s1)"
    and "T_table s i = Some a \<or>
         (T_table s i = None \<and> i < 63 \<and> a = next_addr s \<and> (a, 2 ^ i) \<in> set (live s1))"
  using assms by (auto simp: GetList_eq split: option.splits if_splits)

lemma GetList_again: "T_table s i = Some p \<Longrightarrow> GetList i s = Inr (p, s)"
  by (simp add: GetList_eq)

lemma GetList_Inl: "GetList i s = Inl e \<Longrightarrow> e = BadAlloc"
  by (auto simp: GetList_eq split: option.splits if_splits)

lemma GetList_returns:
  "(\<exists>r. GetList i s = Inr r) \<longleftrightarrow> T_table s i \<noteq> None \<or> (i < 63 \<and> 2 ^ i \<le> avail s)"
  by (auto simp: GetList_eq split: option.splits)

lemma wf_init: "wf (TLockFreeSequence_init k)"
  by (simp add: wf_def heap_ok_def TLockFreeSequence_init_def)

lemma GetList_wf:
  assumes "GetList i s = Inr (a, s1)" "wf s"
  shows "wf s1"
proof (cases "T_table s i")
  case (Some p)
  with assms show ?thesis by (simp add: GetList_eq)
next
  case None
  let ?a = "next_addr s"
  from assms(1) None have ok: "i < 63" "2 ^ i \<le> avail s"
    and s1: "s1 = s\<lparr>live := (?a, 2 ^ i) # live s, next_addr := Suc ?a,
                avail := avail s - 2 ^ i, T_table := (T_table s)(i := Some ?a)\<rparr>"
    by (auto simp: GetList_eq split: if_splits)
  from assms(2) have hp: "heap_ok s"
    and pub: "\<And>j b. T_table s j = Some b \<Longrightarrow> j < 63 \<and> (b, 2 ^ j) \<in> set (live s)"
    and inj: "\<And>j l b. T_table s j = Some b \<Longrightarrow> T_table s l = Some b \<Longrightarrow> j = l"
    unfolding wf_def by blast+
  from hp have fresh: "?a \<notin> fst ` set (live s)" "?a \<notin> set (deleted s)"
    by (auto simp: heap_ok_def)
  have np: "T_table s j \<noteq> Some ?a" for j
  proof
    assume "T_table s j = Some ?a"
    then have "(?a, 2 ^ j) \<in> set (live s)" using pub by blast
    then have "?a \<in> fst ` set (live s)" by force
    with fresh(1) show False by contradiction
  qed
  have hp1: "heap_ok s1"
    using hp fresh unfolding s1 by (auto simp: heap_ok_def lessThan_Suc)
  have pub1: "j < 63 \<and> (b, 2 ^ j) \<in> set (live s1)" if "T_table s1 j = Some b" for j b
  proof (cases "j = i")
    case True
    with that have "b = ?a" by (simp add: s1)
    with True ok(1) show ?thesis by (simp add: s1)
  next
    case False
    with that have "T_table s j = Some b" by (simp add: s1)
    then have "j < 63 \<and> (b, 2 ^ j) \<in> set (live s)" by (rule pub)
    then show ?thesis by (simp add: s1)
  qed
  have inj1: "j = l" if "T_table s1 j = Some b" "T_table s1 l = Some b" for j l b
  proof (cases "j = i")
    case True
    with that(1) have b: "b = ?a" by (simp add: s1)
    show ?thesis
    proof (cases "l = i")
      case True
      with \<open>j = i\<close> show ?thesis by simp
    next
      case False
      with that(2) b have "T_table s l = Some ?a" by (simp add: s1)
      with np show ?thesis by blast
    qed
  next
    case False
    with that(1) have j: "T_table s j = Some b" by (simp add: s1)
    show ?thesis
    proof (cases "l = i")
      case True
      with that(2) have "b = ?a" by (simp add: s1)
      with j np show ?thesis by blast
    next
      case False
      with that(2) have "T_table s l = Some b" by (simp add: s1)
      with j show ?thesis by (rule inj)
    qed
  qed
  from hp1 pub1 inj1 show ?thesis unfolding wf_def by blast
qed

lemma Get_eq:
  fixes n :: size_t
  assumes "n + 1 \<noteq> 0"
  shows "Get n s =
    (case GetList (segment_of (unat n)) s of
       Inl e \<Rightarrow> Inl e
     | Inr l \<Rightarrow> Inr ((fst l, offset_of (unat n)), snd l))"
  using Get_offset [OF assms]
  by (simp add: Get_def Let_def Get_segment [OF assms] split: sum.split)

lemma Get_overflow: "Get (- 1) s = Inl OutOfRange"
proof -
  have "unat (GetValueBitCount (- 1 + 1) - 1) = 2 ^ 64 - 1"
    by (simp add: GetValueBitCount_def unsigned_minus_1_eq_mask mask_eq_exp_minus_1)
  then have "\<not> unat (GetValueBitCount (- 1 + 1) - 1) < 64" by simp
  then show ?thesis by (simp only: Get_def Let_def if_True if_False not_False_eq_True simp_thms)
qed

lemma Get_Inr:
  assumes "Get n s = Inr (r, s1)"
  shows "n + 1 \<noteq> 0"
    and "GetList (segment_of (unat n)) s = Inr (fst r, s1)"
    and "snd r = offset_of (unat n)"
proof -
  show n: "n + 1 \<noteq> 0"
  proof
    assume "n + 1 = 0"
    then have "n = - 1" by (simp add: eq_neg_iff_add_eq_0)
    with assms show False by (simp add: Get_overflow)
  qed
  from assms show "GetList (segment_of (unat n)) s = Inr (fst r, s1)"
    and "snd r = offset_of (unat n)"
    by (auto simp: Get_eq [OF n] split: sum.splits)
qed

lemma Get_Inl: "Get n s = Inl e \<Longrightarrow> e = OutOfRange \<or> e = BadAlloc"
proof (cases "n + 1 = 0")
  case True
  assume "Get n s = Inl e"
  moreover from True have "n = - 1" by (simp add: eq_neg_iff_add_eq_0)
  ultimately show ?thesis by (simp add: Get_overflow)
next
  case False
  assume "Get n s = Inl e"
  with False show ?thesis by (auto simp: Get_eq split: sum.splits dest: GetList_Inl)
qed

lemma Get_returns:
  "(\<exists>r s1. Get n s = Inr (r, s1)) \<longleftrightarrow>
     n + 1 \<noteq> 0 \<and>
     (T_table s (segment_of (unat n)) \<noteq> None \<or>
      (segment_of (unat n) < 63 \<and> 2 ^ segment_of (unat n) \<le> avail s))"
proof (cases "n + 1 = 0")
  case True
  then have "n = - 1" by (simp add: eq_neg_iff_add_eq_0)
  then show ?thesis by (simp add: Get_overflow)
next
  case False
  have "(\<exists>r s1. Get n s = Inr (r, s1)) \<longleftrightarrow> (\<exists>l. GetList (segment_of (unat n)) s = Inr l)"
    by (auto simp: Get_eq [OF False] split: sum.splits)
  with False show ?thesis by (simp only: GetList_returns simp_thms)
qed

lemma Get_again:
  fixes n :: size_t
  assumes "n + 1 \<noteq> 0" "T_table s (segment_of (unat n)) = Some a"
  shows "Get n s = Inr ((a, offset_of (unat n)), s)"
  by (simp add: Get_eq [OF assms(1)] GetList_again [OF assms(2)])

lemma Gets_induct_step:
  assumes "Gets (m # ms) s = Inr s'"
  shows "(Get m s = Inl BadAlloc \<and> Gets ms s = Inr s') \<or>
         (\<exists>r s1. Get m s = Inr (r, s1) \<and> Gets ms s1 = Inr s')"
  using assms by (auto split: sum.splits error.splits)

lemma Gets_keeps:
  assumes "Gets ms s = Inr s'"
  shows "(\<forall>j p. T_table s j = Some p \<longrightarrow> T_table s' j = Some p) \<and>
         (\<forall>x. x \<in> set (live s) \<longrightarrow> x \<in> set (live s')) \<and>
         (wf s \<longrightarrow> wf s')"
  using assms
proof (induction ms arbitrary: s)
  case Nil
  then show ?case by simp
next
  case (Cons m ms)
  from Gets_induct_step [OF Cons.prems] show ?case
  proof (elim disjE conjE exE)
    assume "Gets ms s = Inr s'"
    then show ?thesis by (rule Cons.IH)
  next
    fix r s1 assume g: "Get m s = Inr (r, s1)" and rest: "Gets ms s1 = Inr s'"
    note l = Get_Inr(2) [OF g]
    note k = Cons.IH [OF rest]
    from GetList_Inr(2,3) [OF l] GetList_wf [OF l] k show ?thesis by blast
  qed
qed

lemma reachable_wf: "Gets ms (TLockFreeSequence_init k) = Inr s \<Longrightarrow> wf s"
  using Gets_keeps [of ms "TLockFreeSequence_init k" s] wf_init by blast

lemma segment_63: "segment_of a = 63 \<longleftrightarrow> 2 ^ 63 \<le> a + 1 \<and> a + 1 < 2 ^ 64"
proof
  assume s: "segment_of a = 63"
  have "0 < bit_length (a + 1)" by (rule bit_length_pos) simp
  with s have "bit_length (a + 1) = 64" by (simp add: segment_of_def)
  with bit_length_bounds [of "a + 1"] show "2 ^ 63 \<le> a + 1 \<and> a + 1 < 2 ^ 64" by simp
next
  assume "2 ^ 63 \<le> a + 1 \<and> a + 1 < 2 ^ 64"
  then have "bit_length (a + 1) = Suc 63" by (intro bit_length_unique) simp_all
  then show "segment_of a = 63" by (simp add: segment_of_def)
qed

lemma Get_OutOfRange: "Get n s = Inl OutOfRange \<longleftrightarrow> n + 1 = 0"
proof (cases "n + 1 = 0")
  case True
  then have "n = - 1" by (simp add: eq_neg_iff_add_eq_0)
  with True show ?thesis by (simp add: Get_overflow)
next
  case False
  then show ?thesis by (auto simp: Get_eq split: sum.splits dest: GetList_Inl)
qed

lemma Gets_returns: "\<forall>m\<in>set ms. m + 1 \<noteq> 0 \<Longrightarrow> \<exists>s'. Gets ms s = Inr s'"
proof (induction ms arbitrary: s)
  case Nil
  then show ?case by simp
next
  case (Cons m ms)
  then have m: "m + 1 \<noteq> 0" and rest: "\<And>s. \<exists>s'. Gets ms s = Inr s'" by simp_all
  show ?case
  proof (cases "Get m s")
    case (Inl e)
    with m have "e = BadAlloc" using Get_Inl [of m s e] Get_OutOfRange [of m s] by auto
    with Inl rest [of s] show ?thesis by simp
  next
    case (Inr r)
    with rest [of "snd r"] show ?thesis by simp
  qed
qed

lemma no_segment_63:
  fixes n :: size_t
  assumes "2 ^ 63 - 1 \<le> unat n" "wf s"
  shows "Get n s \<noteq> Inr r"
proof
  assume g: "Get n s = Inr r"
  then have "\<exists>r s1. Get n s = Inr (r, s1)" by (cases r) auto
  then have n: "n + 1 \<noteq> 0"
    and c: "T_table s (segment_of (unat n)) \<noteq> None \<or>
      (segment_of (unat n) < 63 \<and> 2 ^ segment_of (unat n) \<le> avail s)"
    unfolding Get_returns by blast+
  have "unat n + 1 < 2 ^ 64"
    using unsigned_less [of "n + 1", where 'a = nat] by (simp add: unat_succ [OF n])
  with assms(1) have s: "segment_of (unat n) = 63" unfolding segment_63 by simp
  from assms(2) have "T_table s 63 = None" unfolding wf_def by (cases "T_table s 63") auto
  with c s show False by simp
qed

text \<open>
  Claim C2, amended. A call of \<open>Get n\<close> returns a reference exactly when \<open>n + 1\<close> is
  representable in \<open>size_t\<close> and the segment of \<open>n\<close> is published already or can be
  allocated: it is below 63 and the free memory has room for its \<open>2 ^ i\<close> elements.
  Otherwise it raises: out of range when \<open>n + 1\<close> wraps to 0, and \<open>BadAlloc\<close> else.
  Once a call has returned a reference, a repeated call returns the same reference and
  leaves the container as it is; after any further calls of \<open>Get\<close>, returning or
  raising \<open>BadAlloc\<close>, the call still yields that reference and every slot published
  before still holds the pointer it held. On a container made by the constructor and
  calls of \<open>Get\<close>, no call of \<open>Get n\<close> with \<open>n \<ge> 2 ^ 63 - 1\<close> returns a reference.
\<close>

theorem Get_stable:
  fixes n :: size_t
  shows "((\<exists>r s1. Get n s = Inr (r, s1)) \<longleftrightarrow>
            n + 1 \<noteq> 0 \<and>
            (T_table s (segment_of (unat n)) \<noteq> None \<or>
             (segment_of (unat n) < 63 \<and> 2 ^ segment_of (unat n) \<le> avail s)))
    \<and> (\<forall>r s1. Get n s = Inr (r, s1) \<longrightarrow>
          Get n s1 = Inr (r, s1) \<and>
          (\<forall>ms s2. Gets ms s1 = Inr s2 \<longrightarrow>
             Get n s2 = Inr (r, s2) \<and>
             (\<forall>i p. T_table s1 i = Some p \<longrightarrow> T_table s2 i = Some p)))
    \<and> (\<forall>e. Get n s = Inl e \<longrightarrow> e = OutOfRange \<or> e = BadAlloc)
    \<and> (Get n s = Inl OutOfRange \<longleftrightarrow> n + 1 = 0)
    \<and> (\<forall>k ms s' r. 2 ^ 63 - 1 \<le> unat n \<longrightarrow> Gets ms (TLockFreeSequence_init k) = Inr s' \<longrightarrow>
          Get n s' \<noteq> Inr r)"
proof -
  let ?i = "segment_of (unat n)"
  have later: "Get n s1 = Inr (r, s1) \<and>
          (\<forall>ms s2. Gets ms s1 = Inr s2 \<longrightarrow>
             Get n s2 = Inr (r, s2) \<and>
             (\<forall>i p. T_table s1 i = Some p \<longrightarrow> T_table s2 i = Some p))"
    if g: "Get n s = Inr (r, s1)" for r s1
  proof -
    note n = Get_Inr(1) [OF g]
    from GetList_Inr(1) [OF Get_Inr(2) [OF g]] have slot: "T_table s1 ?i = Some (fst r)" .
    from Get_Inr(3) [OF g] have r: "r = (fst r, offset_of (unat n))" by (cases r) simp
    have again: "Get n s2 = Inr (r, s2)" if "T_table s2 ?i = Some (fst r)" for s2
      using Get_again [OF n that] r by simp
    have "Get n s2 = Inr (r, s2) \<and> (\<forall>i p. T_table s1 i = Some p \<longrightarrow> T_table s2 i = Some p)"
      if "Gets ms s1 = Inr s2" for ms s2
    proof -
      from Gets_keeps [OF that]
      have keep: "\<forall>j p. T_table s1 j = Some p \<longrightarrow> T_table s2 j = Some p" by blast
      with slot have "T_table s2 ?i = Some (fst r)" by blast
      with keep again show ?thesis by blast
    qed
    with again [OF slot] show ?thesis by blast
  qed
  have never: "Get n s' \<noteq> Inr r"
    if "2 ^ 63 - 1 \<le> unat n" "Gets ms (TLockFreeSequence_init k) = Inr s'" for k ms s' r
    using that(1) reachable_wf [OF that(2)] by (rule no_segment_63)
  from Get_returns [of n s] later Get_Inl [of n s] Get_OutOfRange [of n s] never
  show ?thesis by blast
qed

lemma index_5: "unat (5::size_t) = 5" "segment_of 5 = 2" "offset_of 5 = 2"
  by (simp_all add: segment_of_def offset_of_def bit_length.simps)

lemma index_0: "unat (0::size_t) = 0" "segment_of 0 = 0" "offset_of 0 = 0"
  by (simp_all add: segment_of_def offset_of_def bit_length.simps)

lemma Get_5_init:
  "Get 5 (TLockFreeSequence_init 1000) =
     Inr ((0, 2),
          \<lparr>T_table = (\<lambda>i. None)(2 := Some 0), live = [(0, 4)], next_addr = 1, deleted = [],
             avail = 996\<rparr>)"
proof -
  have h: "(5::size_t) + 1 \<noteq> 0" by simp
  show ?thesis
    by (simp add: Get_eq [OF h] index_5 GetList_eq TLockFreeSequence_init_def)
qed

theorem Get_stable_witness:
  "\<exists>s1 s2. Get 5 (TLockFreeSequence_init 1000) = Inr ((0, 2), s1) \<and>
      Get 5 s1 = Inr ((0, 2), s1) \<and>
      Gets [100, 0] s1 = Inr s2 \<and> Get 5 s2 = Inr ((0, 2), s2)"
proof -
  obtain s1 where g: "Get 5 (TLockFreeSequence_init 1000) = Inr ((0, 2), s1)"
    using Get_5_init by blast
  note T = Get_stable [of 5 "TLockFreeSequence_init 1000", THEN conjunct2, THEN conjunct1,
      rule_format, OF g]
  from T have a: "Get 5 s1 = Inr ((0, 2), s1)" by (rule conjunct1)
  have "\<forall>m\<in>set [100, 0 :: size_t]. m + 1 \<noteq> 0" by simp
  then obtain s2 where s2: "Gets [100, 0] s1 = Inr s2" using Gets_returns by blast
  from T [THEN conjunct2, rule_format, OF s2] have "Get 5 s2 = Inr ((0, 2), s2)"
    by (rule conjunct1)
  with g a s2 show ?thesis by blast
qed

text \<open>
  The claim as stated, for every index: at the largest \<open>size_t\<close> value \<open>n + 1\<close> wraps
  to 0, the segment index computed from it is outside the table, and \<open>Get\<close> returns no
  reference; and at \<open>n = 2 ^ 63 - 1\<close>, the first index of segment 63, the array of
  \<open>2 ^ 63\<close> elements cannot be allocated however much memory is free, and \<open>Get\<close> raises.
\<close>

theorem Get_max_index_counterexample:
  "Get (- 1) (TLockFreeSequence_init (2 ^ 64)) = Inl OutOfRange \<and>
   Get (2 ^ 63 - 1) (TLockFreeSequence_init (2 ^ 64)) = Inl BadAlloc"
proof -
  let ?n = "2 ^ 63 - 1 :: size_t"
  let ?s = "TLockFreeSequence_init (2 ^ 64)"
  have h: "?n + 1 \<noteq> 0" by simp
  have e: "Get ?n ?s =
      (case GetList (segment_of (unat ?n)) ?s of
         Inl e \<Rightarrow> Inl e
       | Inr l \<Rightarrow> Inr ((fst l, offset_of (unat ?n)), snd l))"
    using h by (rule Get_eq)
  have "unat ?n = 2 ^ 63 - 1" by simp
  moreover have "segment_of (2 ^ 63 - 1) = 63" unfolding segment_63 by simp
  ultimately have u: "segment_of (unat ?n) = 63" by (simp only:)
  have l: "GetList 63 ?s = Inl BadAlloc"
    by (simp add: GetList_eq TLockFreeSequence_init_def)
  have "Get ?n ?s = Inl BadAlloc" by (simp only: e u l sum.case)
  with Get_overflow show ?thesis by blast
qed

text \<open>
  Claim C3. Let the container be made by the constructor and calls of \<open>Get\<close>, and
  \<open>n + 1\<close> be representable in \<open>size_t\<close>. The segment \<open>i = bit-length (n + 1) - 1\<close> of
  \<open>n\<close> is one of the 64 slots and the offset \<open>(n + 1) - 2 ^ i\<close> is below \<open>2 ^ i\<close>, and
  two such indices with the same segment and offset are equal. \<open>Get n\<close> returns
  exactly when segment \<open>i\<close> is published or can be allocated, and the reference it
  returns is the offset \<open>(n + 1) - 2 ^ i\<close> in the array published in slot \<open>i\<close>: a live
  array of \<open>2 ^ i\<close> elements, never deleted, that no other slot holds. After any
  further calls the array is still live, and a call of \<open>Get m\<close> that returns the same
  reference has \<open>m = n\<close>.
\<close>

theorem Get_addressing:
  fixes n :: size_t
  assumes "n + 1 \<noteq> 0" and "Gets ms (TLockFreeSequence_init k) = Inr s"
  shows "segment_of (unat n) < 64 \<and> offset_of (unat n) < 2 ^ segment_of (unat n)
    \<and> (\<forall>m::size_t. m + 1 \<noteq> 0 \<longrightarrow> segment_of (unat m) = segment_of (unat n) \<longrightarrow>
          offset_of (unat m) = offset_of (unat n) \<longrightarrow> m = n)
    \<and> ((\<exists>r s1. Get n s = Inr (r, s1)) \<longleftrightarrow>
          T_table s (segment_of (unat n)) \<noteq> None \<or>
          (segment_of (unat n) < 63 \<and> 2 ^ segment_of (unat n) \<le> avail s))
    \<and> (\<forall>a off s1. Get n s = Inr ((a, off), s1) \<longrightarrow>
          off = offset_of (unat n) \<and> off < 2 ^ segment_of (unat n) \<and>
          T_table s1 (segment_of (unat n)) = Some a \<and>
          (a, 2 ^ segment_of (unat n)) \<in> set (live s1) \<and> a \<notin> set (deleted s1) \<and>
          (\<forall>i b. T_table s1 i = Some b \<longrightarrow> i \<noteq> segment_of (unat n) \<longrightarrow> b \<noteq> a) \<and>
          (\<forall>ms' s2. Gets ms' s1 = Inr s2 \<longrightarrow>
             (a, 2 ^ segment_of (unat n)) \<in> set (live s2) \<and> a \<notin> set (deleted s2) \<and>
             (\<forall>m r s3. Get m s2 = Inr (r, s3) \<longrightarrow> r = (a, off) \<longrightarrow> m = n)))"
proof -
  let ?i = "segment_of (unat n)"
  note ar = Get_offset(2,3) [OF assms(1)]
  have inj: "m = n"
    if "segment_of (unat m) = ?i" "offset_of (unat m) = offset_of (unat n)" for m :: size_t
  proof -
    from that have "unat m = unat n" by (rule segment_offset_inj)
    then show ?thesis by (simp only: word_eq_iff_unsigned [where 'a = nat, symmetric])
  qed
  have ret: "(\<exists>r s1. Get n s = Inr (r, s1)) \<longleftrightarrow>
          T_table s ?i \<noteq> None \<or> (?i < 63 \<and> 2 ^ ?i \<le> avail s)"
    using assms(1) by (simp only: Get_returns simp_thms)
  note w = reachable_wf [OF assms(2)]
  have live_nd: "a \<notin> set (deleted t)" if "wf t" "(a, z) \<in> set (live t)" for t a z
  proof -
    from that(2) have "a \<in> fst ` set (live t)" by force
    with that(1) show ?thesis unfolding wf_def heap_ok_def by blast
  qed
  have main: "off = offset_of (unat n) \<and> off < 2 ^ ?i \<and>
          T_table s1 ?i = Some a \<and>
          (a, 2 ^ ?i) \<in> set (live s1) \<and> a \<notin> set (deleted s1) \<and>
          (\<forall>i b. T_table s1 i = Some b \<longrightarrow> i \<noteq> ?i \<longrightarrow> b \<noteq> a) \<and>
          (\<forall>ms' s2. Gets ms' s1 = Inr s2 \<longrightarrow>
             (a, 2 ^ ?i) \<in> set (live s2) \<and> a \<notin> set (deleted s2) \<and>
             (\<forall>m r s3. Get m s2 = Inr (r, s3) \<longrightarrow> r = (a, off) \<longrightarrow> m = n))"
    if g: "Get n s = Inr ((a, off), s1)" for a off s1
  proof -
    from Get_Inr(2,3) [OF g] have l: "GetList ?i s = Inr (a, s1)"
      and off: "off = offset_of (unat n)" by simp_all
    from GetList_Inr(1) [OF l] have slot: "T_table s1 ?i = Some a" .
    from GetList_wf [OF l w] have w1: "wf s1" .
    from w1 slot have lv: "(a, 2 ^ ?i) \<in> set (live s1)" unfolding wf_def by blast
    have other: "b \<noteq> a" if "T_table s1 i = Some b" "i \<noteq> ?i" for i b
      using w1 slot that unfolding wf_def by blast
    have later: "(a, 2 ^ ?i) \<in> set (live s2) \<and> a \<notin> set (deleted s2) \<and>
             (\<forall>m r s3. Get m s2 = Inr (r, s3) \<longrightarrow> r = (a, off) \<longrightarrow> m = n)"
      if gs: "Gets ms' s1 = Inr s2" for ms' s2
    proof -
      from Gets_keeps [OF gs] w1 slot lv
      have w2: "wf s2" and slot2: "T_table s2 ?i = Some a" and lv2: "(a, 2 ^ ?i) \<in> set (live s2)"
        by blast+
      have "m = n" if gm: "Get m s2 = Inr ((a, off), s3)" for m s3
      proof -
        from Get_Inr(2,3) [OF gm] have lm: "GetList (segment_of (unat m)) s2 = Inr (a, s3)"
          and om: "off = offset_of (unat m)" by simp_all
        from GetList_Inr(1) [OF lm] have "T_table s3 (segment_of (unat m)) = Some a" .
        moreover from GetList_Inr(2) [OF lm slot2] have "T_table s3 ?i = Some a" .
        moreover from GetList_wf [OF lm w2] have "wf s3" .
        ultimately have "segment_of (unat m) = ?i" unfolding wf_def by blast
        moreover from om off have "offset_of (unat m) = offset_of (unat n)" by simp
        ultimately show ?thesis by (rule inj)
      qed
      with lv2 live_nd [OF w2 lv2] show ?thesis by blast
    qed
    from off ar(1) slot lv live_nd [OF w1 lv] other later show ?thesis by blast
  qed
  from ar inj ret main show ?thesis by blast
qed

lemma Get_0_init:
  "Get 0 (TLockFreeSequence_init 1000) =
     Inr ((0, 0),
          \<lparr>T_table = (\<lambda>i. None)(0 := Some 0), live = [(0, 1)], next_addr = 1, deleted = [],
             avail = 999\<rparr>)"
proof -
  have h: "(0::size_t) + 1 \<noteq> 0" by simp
  show ?thesis
    by (simp add: Get_eq [OF h] index_0 GetList_eq TLockFreeSequence_init_def)
qed

theorem Get_addressing_witness:
  "(5::size_t) + 1 \<noteq> 0 \<and>
   (\<exists>s. Gets [0] (TLockFreeSequence_init 1000) = Inr s \<and>
      (\<exists>s1. Get 5 s = Inr ((1, 2), s1) \<and> T_table s1 2 = Some 1 \<and> (1, 4) \<in> set (live s1) \<and>
         T_table s1 0 = Some 0)) \<and>
   segment_of 5 = 2 \<and> offset_of 5 = 2"
proof -
  have h: "(5::size_t) + 1 \<noteq> 0" by simp
  let ?s = "\<lparr>T_table = (\<lambda>i. None)(0 := Some 0), live = [(0, 1)], next_addr = 1, deleted = [],
             avail = 999\<rparr>"
  have gs: "Gets [0] (TLockFreeSequence_init 1000) = Inr ?s" by (simp add: Get_0_init)
  have "\<exists>s1. Get 5 ?s = Inr ((1, 2), s1) \<and> T_table s1 0 = Some 0"
    by (simp add: Get_eq [OF h] index_5 GetList_eq)
  then obtain s1 where g: "Get 5 ?s = Inr ((1, 2), s1)" and z: "T_table s1 0 = Some 0" by blast
  note T = Get_addressing [OF h gs, THEN conjunct2, THEN conjunct2, THEN conjunct2,
      THEN conjunct2, rule_format, OF g]
  from T have "T_table s1 (segment_of (unat (5::size_t))) = Some 1"
    and "(1, 2 ^ segment_of (unat (5::size_t))) \<in> set (live s1)" by blast+
  then have "T_table s1 2 = Some 1" "(1, 4) \<in> set (live s1)" by (simp_all add: index_5)
  with h gs g z index_5(2,3) show ?thesis by blast
qed

section \<open>The growable container, run by racing threads\<close>

lemma held_replicate: "held (replicate T Loop) = []"
  by (induction T) (simp_all add: held_def)

lemma inv_init: "inv n (race_init k T)"
  by (simp add: inv_def race_init_def heap_ok_def TLockFreeSequence_init_def held_replicate
      slot_list_def returned_ok_def)

lemma held_nth:
  "i < length ts \<Longrightarrow> held ts = held (take i ts) @ hold (ts ! i) @ held (drop (Suc i) ts)"
proof -
  assume "i < length ts"
  then have "ts = take i ts @ ts ! i # drop (Suc i) ts" by (rule id_take_nth_drop)
  then have "held ts = held (take i ts @ ts ! i # drop (Suc i) ts)" by simp
  then show ?thesis by (simp add: held_def)
qed

lemma held_upd:
  "i < length ts \<Longrightarrow> held (ts[i := p]) = held (take i ts) @ hold p @ held (drop (Suc i) ts)"
  by (simp add: upd_conv_take_nth_drop held_def)

lemma returned_upd:
  assumes "\<forall>q\<in>set ts. returned_ok m n q" "returned_ok m n p"
  shows "\<forall>q\<in>set (ts[i := p]). returned_ok m n q"
  using assms set_update_subset_insert [of ts i p] by auto

lemma step_Loop:
  assumes "inv n c" "i < length (threads c)" "threads c ! i = Loop"
  shows "inv n (step n i c)"
proof -
  let ?p = "case T_table (mem c) n of None \<Rightarrow> Alloc | Some x \<Rightarrow> Ret"
  have st: "step n i c = \<lparr>mem = mem c, threads = (threads c)[i := ?p]\<rparr>"
    using assms(2,3) by (simp add: step_def AtomicGet_def split: option.split)
  have h: "hold ?p = []" by (simp split: option.split)
  have r: "returned_ok (mem c) n ?p" by (simp add: returned_ok_def split: option.split)
  have hl: "held ((threads c)[i := ?p]) = held (threads c)"
    using assms(2,3) by (simp add: held_upd h) (simp add: held_nth [of i "threads c"])
  from assms(1) returned_upd [OF _ r, of "threads c" i] show ?thesis
    unfolding st by (simp add: inv_def hl)
qed

lemma step_Ret:
  assumes "inv n c" "i < length (threads c)" "threads c ! i = Ret"
  shows "inv n (step n i c)"
proof -
  let ?p = "Done (T_table (mem c) n)"
  have st: "step n i c = \<lparr>mem = mem c, threads = (threads c)[i := ?p]\<rparr>"
    using assms(2,3) by (simp add: step_def)
  from assms have "returned_ok (mem c) n Ret" by (auto simp: inv_def dest: nth_mem)
  then have r: "returned_ok (mem c) n ?p" by (simp add: returned_ok_def)
  have hl: "held ((threads c)[i := ?p]) = held (threads c)"
    using assms(2,3) by (simp add: held_upd) (simp add: held_nth [of i "threads c"])
  from assms(1) returned_upd [OF _ r, of "threads c" i] show ?thesis
    unfolding st by (simp add: inv_def hl)
qed

lemma step_Done:
  assumes "inv n c" "i < length (threads c)" "threads c ! i = Done p"
  shows "inv n (step n i c)"
proof -
  from assms(2,3) have "step n i c = c" by (simp add: step_def list_update_same_conv)
  with assms(1) show ?thesis by simp
qed


lemma returned_same_slot:
  "T_table m' n = T_table m n \<Longrightarrow> returned_ok m' n p = returned_ok m n p"
  by (simp add: returned_ok_def split: pc.split)

lemma step_Raised:
  assumes "inv n c" "i < length (threads c)" "threads c ! i = Raised"
  shows "inv n (step n i c)"
proof -
  from assms(2,3) have "step n i c = c" by (simp add: step_def list_update_same_conv)
  with assms(1) show ?thesis by simp
qed

lemma step_Alloc:
  assumes "inv n c" "i < length (threads c)" "threads c ! i = Alloc"
  shows "inv n (step n i c)"
proof (cases "n < 63 \<and> 2 ^ n \<le> avail (mem c)")
  case False
  let ?m = "mem c" and ?ts = "threads c"
  from False have c: "(n < 63 \<and> 2 ^ n \<le> avail ?m) \<longleftrightarrow> False" by simp
  have st: "step n i c = \<lparr>mem = ?m, threads = ?ts[i := Raised]\<rparr>"
    using assms(2,3) by (simp add: step_def new_array_eq c)
  have hl: "held (?ts[i := Raised]) = held ?ts"
    using assms(2,3) by (simp add: held_upd) (simp add: held_nth [of i ?ts])
  have r: "returned_ok ?m n Raised" by (simp add: returned_ok_def)
  from assms(1) returned_upd [OF _ r, of ?ts i] show ?thesis
    unfolding st by (simp add: inv_def hl)
next
  case True
  let ?m = "mem c" and ?ts = "threads c"
  let ?a = "next_addr ?m"
  let ?m' = "?m\<lparr>live := (?a, 2 ^ n) # live ?m, next_addr := Suc ?a,
                avail := avail ?m - 2 ^ n\<rparr>"
  let ?A = "held (take i ?ts)" and ?B = "held (drop (Suc i) ?ts)"
  from True have c: "(n < 63 \<and> 2 ^ n \<le> avail ?m) \<longleftrightarrow> True" by simp
  have st: "step n i c = \<lparr>mem = ?m', threads = ?ts[i := Cas ?a]\<rparr>"
    using assms(2,3) by (simp add: step_def new_array_eq c)
  from assms(1) have hp: "heap_ok ?m" by (simp add: inv_def)
  then have fresh: "?a \<notin> fst ` set (live ?m)" "?a \<notin> set (deleted ?m)"
    by (auto simp: heap_ok_def)
  have hp': "heap_ok ?m'"
    using hp fresh by (auto simp: heap_ok_def lessThan_Suc)
  have h: "held ?ts = ?A @ ?B" using assms(2,3) by (simp add: held_nth [of i ?ts])
  have h': "held (?ts[i := Cas ?a]) = ?A @ [?a] @ ?B" using assms(2) by (simp add: held_upd)
  have sl: "slot_list ?m' n = slot_list ?m n" by (simp add: slot_list_def)
  from assms(1) have d: "distinct (slot_list ?m n @ ?A @ ?B)"
    and l: "fst ` set (live ?m) = set (slot_list ?m n @ ?A @ ?B)"
    by (simp_all add: inv_def h)
  from fresh(1) l have na: "?a \<notin> set (slot_list ?m n)" "?a \<notin> set ?A" "?a \<notin> set ?B" by auto
  have d': "distinct (slot_list ?m' n @ ?A @ [?a] @ ?B)"
    using d na by (auto simp: sl)
  have l': "fst ` set (live ?m') = set (slot_list ?m' n @ ?A @ [?a] @ ?B)"
    using l by (auto simp: sl)
  have o': "\<forall>j. j \<noteq> n \<longrightarrow> T_table ?m' j = None" using assms(1) by (simp add: inv_def)
  have "T_table ?m' n = T_table ?m n" by simp
  then have "returned_ok ?m' n q = returned_ok ?m n q" for q by (rule returned_same_slot)
  then have "\<forall>q\<in>set ?ts. returned_ok ?m' n q"
    using assms(1) by (simp add: inv_def)
  moreover have "returned_ok ?m' n (Cas ?a)" by (simp add: returned_ok_def)
  ultimately have r': "\<forall>q\<in>set (?ts[i := Cas ?a]). returned_ok ?m' n q" by (rule returned_upd)
  show ?thesis unfolding st inv_def
    using hp' d' l' o' r' by (simp add: h')
qed

lemma step_Drop:
  assumes "inv n c" "i < length (threads c)" "threads c ! i = Drop a"
  shows "inv n (step n i c)"
proof -
  let ?m = "mem c" and ?ts = "threads c"
  let ?m' = "delete_array a ?m"
  let ?A = "held (take i ?ts)" and ?B = "held (drop (Suc i) ?ts)"
  have st: "step n i c = \<lparr>mem = ?m', threads = ?ts[i := Loop]\<rparr>"
    using assms(2,3) by (simp add: step_def)
  from assms(1) have hp: "heap_ok ?m" by (simp add: inv_def)
  have h: "held ?ts = ?A @ [a] @ ?B" using assms(2,3) by (simp add: held_nth [of i ?ts])
  have h': "held (?ts[i := Loop]) = ?A @ ?B" using assms(2) by (simp add: held_upd)
  have sl: "slot_list ?m' n = slot_list ?m n" by (simp add: slot_list_def delete_array_def)
  from assms(1) have d: "distinct (slot_list ?m n @ ?A @ [a] @ ?B)"
    and l: "fst ` set (live ?m) = set (slot_list ?m n @ ?A @ [a] @ ?B)"
    by (simp_all add: inv_def h)
  from l have al: "a \<in> fst ` set (live ?m)" by simp
  with hp have ad: "a \<notin> set (deleted ?m)" by (auto simp: heap_ok_def)
  have lv: "fst ` set (live ?m') = fst ` set (live ?m) - {a}"
    by (auto simp: delete_array_def)
  have dl: "distinct (map fst (live ?m'))"
    using hp by (simp add: heap_ok_def delete_array_def distinct_map_filter)
  have hp': "heap_ok ?m'"
    unfolding heap_ok_def using dl hp ad al
    by (simp only: lv) (auto simp: heap_ok_def delete_array_def)
  have d': "distinct (slot_list ?m' n @ ?A @ ?B)" using d by (auto simp: sl)
  have l': "fst ` set (live ?m') = set (slot_list ?m' n @ ?A @ ?B)"
    using d l by (simp only: lv sl) auto
  have o': "\<forall>j. j \<noteq> n \<longrightarrow> T_table ?m' j = None"
    using assms(1) by (simp add: inv_def delete_array_def)
  have "T_table ?m' n = T_table ?m n" by (simp add: delete_array_def)
  then have "returned_ok ?m' n q = returned_ok ?m n q" for q by (rule returned_same_slot)
  then have "\<forall>q\<in>set ?ts. returned_ok ?m' n q"
    using assms(1) by (simp add: inv_def)
  moreover have "returned_ok ?m' n Loop" by (simp add: returned_ok_def)
  ultimately have r': "\<forall>q\<in>set (?ts[i := Loop]). returned_ok ?m' n q" by (rule returned_upd)
  show ?thesis unfolding st inv_def
    using hp' d' l' o' r' by (simp add: h')
qed


lemma step_Cas:
  assumes "inv n c" "i < length (threads c)" "threads c ! i = Cas a"
  shows "inv n (step n i c)"
proof (cases "T_table (mem c) n")
  case (Some w)
  let ?m = "mem c" and ?ts = "threads c"
  have st: "step n i c = \<lparr>mem = ?m, threads = ?ts[i := Drop a]\<rparr>"
    using assms(2,3) Some by (simp add: step_def AtomicCas_def)
  have hl: "held (?ts[i := Drop a]) = held ?ts"
    using assms(2,3) by (simp add: held_upd) (simp add: held_nth [of i ?ts])
  have r: "returned_ok ?m n (Drop a)" by (simp add: returned_ok_def)
  from assms(1) returned_upd [OF _ r, of ?ts i] show ?thesis
    unfolding st by (simp add: inv_def hl)
next
  case None
  let ?m = "mem c" and ?ts = "threads c"
  let ?m' = "?m\<lparr>T_table := (T_table ?m)(n := Some a)\<rparr>"
  let ?A = "held (take i ?ts)" and ?B = "held (drop (Suc i) ?ts)"
  have st: "step n i c = \<lparr>mem = ?m', threads = ?ts[i := Done (Some a)]\<rparr>"
    using assms(2,3) None by (simp add: step_def AtomicCas_def)
  from assms(1) have hp: "heap_ok ?m" by (simp add: inv_def)
  then have hp': "heap_ok ?m'" by (simp add: heap_ok_def)
  have h: "held ?ts = ?A @ [a] @ ?B" using assms(2,3) by (simp add: held_nth [of i ?ts])
  have h': "held (?ts[i := Done (Some a)]) = ?A @ ?B" using assms(2) by (simp add: held_upd)
  have sl: "slot_list ?m n = []" using None by (simp add: slot_list_def)
  have sl': "slot_list ?m' n = [a]" by (simp add: slot_list_def)
  from assms(1) have d: "distinct (?A @ [a] @ ?B)"
    and l: "fst ` set (live ?m) = set (?A @ [a] @ ?B)"
    by (simp_all add: inv_def h sl)
  have d': "distinct (slot_list ?m' n @ ?A @ ?B)" using d by (auto simp: sl')
  have l': "fst ` set (live ?m') = set (slot_list ?m' n @ ?A @ ?B)"
    using l by (auto simp: sl')
  have o': "\<forall>j. j \<noteq> n \<longrightarrow> T_table ?m' j = None" using assms(1) by (simp add: inv_def)
  have "returned_ok ?m' n q" if "q \<in> set ?ts" for q
  proof -
    from assms(1) that have "returned_ok ?m n q" by (simp add: inv_def)
    with None show ?thesis by (cases q) (simp_all add: returned_ok_def)
  qed
  moreover have "returned_ok ?m' n (Done (Some a))" by (simp add: returned_ok_def)
  ultimately have r': "\<forall>q\<in>set (?ts[i := Done (Some a)]). returned_ok ?m' n q"
    using returned_upd [of ?ts ?m' n "Done (Some a)" i] by blast
  show ?thesis unfolding st inv_def
    using hp' d' l' o' r' by (simp add: h')
qed

lemma inv_step: "inv n c \<Longrightarrow> inv n (step n i c)"
proof (cases "i < length (threads c)")
  case False
  assume "inv n c"
  with False show ?thesis by (simp add: step_def)
next
  case True
  assume i: "inv n c"
  show ?thesis
  proof (cases "threads c ! i")
    case Loop with i True show ?thesis by (simp add: step_Loop)
  next
    case Alloc with i True show ?thesis by (simp add: step_Alloc)
  next
    case (Cas a) with i True show ?thesis by (simp add: step_Cas)
  next
    case (Drop a) with i True show ?thesis by (simp add: step_Drop)
  next
    case Ret with i True show ?thesis by (simp add: step_Ret)
  next
    case (Done p) with i True show ?thesis by (simp add: step_Done)
  next
    case Raised with i True show ?thesis by (simp add: step_Raised)
  qed
qed

lemma inv_run: "inv n c \<Longrightarrow> inv n (run n sched c)"
  by (induction sched arbitrary: c) (simp_all add: inv_step)

lemma inv_reachable: "inv n (run n sched (race_init k T))"
  by (rule inv_run) (rule inv_init)

lemma length_step [simp]: "length (threads (step n i c)) = length (threads c)"
  by (simp add: step_def Let_def)

lemma length_run [simp]: "length (threads (run n sched c)) = length (threads c)"
  by (induction sched arbitrary: c) simp_all

lemma slot_step:
  "T_table (mem c) n = Some w \<Longrightarrow> T_table (mem (step n i c)) n = Some w"
  by (cases "threads c ! i")
    (auto simp: step_def Let_def AtomicGet_def AtomicCas_def new_array_def delete_array_def
      split: option.splits if_splits)

lemma slot_run:
  "T_table (mem c) n = Some w \<Longrightarrow> T_table (mem (run n sched c)) n = Some w"
  by (induction sched arbitrary: c) (simp_all add: slot_step)

lemma run_append: "run n (s1 @ s2) c = run n s2 (run n s1 c)"
  by (induction s1 arbitrary: c) simp_all

lemma destroy_none:
  "\<forall>j<k. T_table m j = None \<Longrightarrow>
   fold (\<lambda>i s. case T_table s i of None \<Rightarrow> s | Some p \<Rightarrow> delete_array p s) [0..<k] m = m"
  by (induction k) simp_all

lemma destroy_one:
  assumes "T_table m n = Some w" "\<forall>j. j \<noteq> n \<longrightarrow> T_table m j = None" "n < k"
  shows "fold (\<lambda>i s. case T_table s i of None \<Rightarrow> s | Some p \<Rightarrow> delete_array p s) [0..<k] m
         = delete_array w m"
  using assms(3)
proof (induction k)
  case 0
  then show ?case by simp
next
  case (Suc k)
  show ?case
  proof (cases "n = k")
    case True
    with assms(2) have "\<forall>j<k. T_table m j = None" by simp
    then show ?thesis using True assms(1) by (simp add: destroy_none)
  next
    case False
    with Suc.prems have "n < k" by simp
    then show ?thesis using Suc.IH assms(2) False by (simp add: delete_array_def)
  qed
qed

lemma destroy_single:
  assumes "T_table m n = Some w" "\<forall>j. j \<noteq> n \<longrightarrow> T_table m j = None" "n < 64"
  shows "TLockFreeSequence_destroy m = delete_array w m"
  unfolding TLockFreeSequence_destroy_def using assms by (rule destroy_one)

lemma held_all_left: "\<forall>p\<in>set ts. left p \<Longrightarrow> held ts = []"
proof (induction ts)
  case Nil
  then show ?case by (simp add: held_def)
next
  case (Cons p ts)
  then have "left p" and "held ts = []" by simp_all
  moreover from \<open>left p\<close> have "hold p = []" by (cases p) (simp_all add: left_def)
  ultimately show ?case by (simp add: held_def)
qed

lemma left_iff: "left p \<longleftrightarrow> (\<exists>r. p = Done r) \<or> p = Raised"
  by (cases p) (simp_all add: left_def)

lemma distinct_singleton:
  assumes "distinct xs" "set xs = {w}"
  shows "xs = [w]"
proof (cases xs)
  case Nil
  with assms(2) show ?thesis by simp
next
  case (Cons x ys)
  with assms(2) have x: "x = w" by auto
  have "ys = []"
  proof (cases ys)
    case Nil
    then show ?thesis .
  next
    case (Cons y zs)
    with \<open>xs = x # ys\<close> assms(2) have "y = w" by auto
    with Cons \<open>xs = x # ys\<close> x assms(1) show ?thesis by simp
  qed
  with Cons x show ?thesis by simp
qed

lemma live_single:
  assumes "map fst xs = [w]"
  shows "filter (\<lambda>x. fst x \<noteq> w) xs = []"
proof -
  from assms obtain x where "xs = [x]" "fst x = w" by (cases xs) auto
  then show ?thesis by simp
qed

lemma done_slot:
  assumes "returned_ok m n (Done r)"
  shows "r = T_table m n" "T_table m n \<noteq> None"
  using assms by (auto simp: returned_ok_def)

lemma quiescent_left:
  assumes i: "inv n c" and n: "n < 64" and q: "\<forall>p\<in>set (threads c). left p"
  shows "map fst (live (mem c)) = slot_list (mem c) n \<and>
         distinct (deleted (mem c)) \<and>
         set (deleted (mem c)) = {..<next_addr (mem c)} - set (slot_list (mem c) n) \<and>
         live (TLockFreeSequence_destroy (mem c)) = [] \<and>
         distinct (deleted (TLockFreeSequence_destroy (mem c))) \<and>
         set (deleted (TLockFreeSequence_destroy (mem c))) = {..<next_addr (mem c)}"
proof -
  let ?m = "mem c"
  from i have hp: "heap_ok ?m"
    and l0: "fst ` set (live ?m) = set (slot_list ?m n @ held (threads c))"
    and o: "\<forall>j. j \<noteq> n \<longrightarrow> T_table ?m j = None"
    unfolding inv_def by blast+
  from q have h: "held (threads c) = []" by (rule held_all_left)
  from l0 have l: "fst ` set (live ?m) = set (slot_list ?m n)" by (simp add: h)
  from hp have d1: "distinct (map fst (live ?m))"
    and dd: "distinct (deleted ?m)"
    and d3: "set (deleted ?m) \<inter> fst ` set (live ?m) = {}"
    and d4: "set (deleted ?m) \<union> fst ` set (live ?m) = {..<next_addr ?m}"
    unfolding heap_ok_def by blast+
  from d3 d4 have ds: "set (deleted ?m) = {..<next_addr ?m} - set (slot_list ?m n)"
    unfolding l by blast
  show ?thesis
  proof (cases "T_table ?m n")
    case None
    then have sl: "slot_list ?m n = []" by (simp add: slot_list_def)
    from l have lv: "live ?m = []" by (simp add: sl)
    from None o have "\<forall>j<64. T_table ?m j = None" by (metis)
    then have de: "TLockFreeSequence_destroy ?m = ?m"
      unfolding TLockFreeSequence_destroy_def by (rule destroy_none)
    from d4 have "set (deleted ?m) = {..<next_addr ?m}" by (simp add: lv)
    with lv sl dd ds show ?thesis by (simp add: de)
  next
    case (Some w)
    then have sl: "slot_list ?m n = [w]" by (simp add: slot_list_def)
    from l have "set (map fst (live ?m)) = {w}" by (simp add: sl)
    with d1 have lw: "map fst (live ?m) = [w]" by (rule distinct_singleton)
    from d3 have wd: "w \<notin> set (deleted ?m)" unfolding l sl by simp
    have de: "TLockFreeSequence_destroy ?m = delete_array w ?m"
      using Some o n by (rule destroy_single)
    have l': "live (TLockFreeSequence_destroy ?m) = []"
      unfolding de using live_single [OF lw] by (simp add: delete_array_def)
    have dw: "deleted (TLockFreeSequence_destroy ?m) = w # deleted ?m"
      unfolding de by (simp add: delete_array_def)
    have d': "distinct (deleted (TLockFreeSequence_destroy ?m))"
      unfolding dw using dd wd by simp
    have "insert w (set (deleted ?m)) = {..<next_addr ?m}" using d4 unfolding l sl by simp
    then have s': "set (deleted (TLockFreeSequence_destroy ?m)) = {..<next_addr ?m}"
      unfolding dw by simp
    from lw dd ds l' d' s' show ?thesis by (simp add: sl)
  qed
qed

lemma quiescent:
  assumes i: "inv n c" and n: "n < 64" and t: "threads c \<noteq> []"
    and q: "\<forall>p\<in>set (threads c). \<exists>r. p = Done r"
  shows "\<exists>w. T_table (mem c) n = Some w \<and> (\<forall>p\<in>set (threads c). p = Done (Some w)) \<and>
           map fst (live (mem c)) = [w] \<and> distinct (deleted (mem c)) \<and>
           set (deleted (mem c)) = {..<next_addr (mem c)} - {w} \<and>
           live (TLockFreeSequence_destroy (mem c)) = [] \<and>
           distinct (deleted (TLockFreeSequence_destroy (mem c))) \<and>
           set (deleted (TLockFreeSequence_destroy (mem c))) = {..<next_addr (mem c)}"
proof -
  let ?m = "mem c"
  from i have r: "\<forall>p\<in>set (threads c). returned_ok ?m n p" unfolding inv_def by blast
  from t obtain p0 where p0: "p0 \<in> set (threads c)" by (cases "threads c") auto
  with q obtain r0 where r0: "p0 = Done r0" by blast
  from r p0 have "returned_ok ?m n p0" by blast
  then have "T_table ?m n \<noteq> None" unfolding r0 by (rule done_slot)
  then obtain w where w: "T_table ?m n = Some w" by blast
  have all: "\<forall>p\<in>set (threads c). p = Done (Some w)"
  proof
    fix p assume p: "p \<in> set (threads c)"
    with q obtain r' where r': "p = Done r'" by blast
    from r p have "returned_ok ?m n p" by blast
    then have "r' = T_table ?m n" unfolding r' by (rule done_slot)
    with r' w show "p = Done (Some w)" by simp
  qed
  from q have "\<forall>p\<in>set (threads c). left p" unfolding left_iff by blast
  with i n have "map fst (live ?m) = slot_list ?m n \<and>
         distinct (deleted ?m) \<and>
         set (deleted ?m) = {..<next_addr ?m} - set (slot_list ?m n) \<and>
         live (TLockFreeSequence_destroy ?m) = [] \<and>
         distinct (deleted (TLockFreeSequence_destroy ?m)) \<and>
         set (deleted (TLockFreeSequence_destroy ?m)) = {..<next_addr ?m}"
    by (rule quiescent_left)
  moreover have "slot_list ?m n = [w]" by (simp add: slot_list_def w)
  ultimately show ?thesis using w all by simp
qed

lemma dropping:
  assumes i: "inv n c" and d: "Drop a \<in> set (threads c)"
  shows "a \<in> fst ` set (live (mem c)) \<and> a \<notin> set (deleted (mem c)) \<and> T_table (mem c) n \<noteq> Some a"
proof -
  from d obtain k where k: "k < length (threads c)" "threads c ! k = Drop a"
    by (auto simp: in_set_conv_nth)
  then have h: "held (threads c)
      = held (take k (threads c)) @ [a] @ held (drop (Suc k) (threads c))"
    by (simp add: held_nth [of k "threads c"])
  from i have "distinct (slot_list (mem c) n @ held (threads c))"
    and l: "fst ` set (live (mem c)) = set (slot_list (mem c) n @ held (threads c))"
    and hp: "heap_ok (mem c)"
    by (simp_all add: inv_def)
  then have "a \<notin> set (slot_list (mem c) n)" by (auto simp: h)
  then have "T_table (mem c) n \<noteq> Some a" by (auto simp: slot_list_def)
  moreover from l have al: "a \<in> fst ` set (live (mem c))" by (simp add: h)
  moreover from hp al have "a \<notin> set (deleted (mem c))" by (auto simp: heap_ok_def)
  ultimately show ?thesis by blast
qed

lemma GetList_alone:
  "run n [0, 0, 0] \<lparr>mem = m, threads = [Loop]\<rparr> =
     (case GetList n m of
        Inl e \<Rightarrow> \<lparr>mem = m, threads = [Raised]\<rparr>
      | Inr r \<Rightarrow> \<lparr>mem = snd r, threads = [Done (Some (fst r))]\<rparr>)"
proof (cases "T_table m n")
  case (Some p)
  then show ?thesis
    by (simp add: GetList_eq step_def AtomicGet_def Let_def)
next
  case None
  show ?thesis
  proof (cases "n < 63 \<and> 2 ^ n \<le> avail m")
    case True
    then have c: "(n < 63 \<and> 2 ^ n \<le> avail m) \<longleftrightarrow> True" by simp
    from None show ?thesis
      by (simp add: GetList_eq step_def AtomicGet_def AtomicCas_def new_array_eq c Let_def)
  next
    case False
    then have c: "(n < 63 \<and> 2 ^ n \<le> avail m) \<longleftrightarrow> False" by simp
    from None show ?thesis
      by (simp add: GetList_eq step_def AtomicGet_def new_array_eq c Let_def)
  qed
qed

lemma step_left:
  "j < length (threads c) \<Longrightarrow> left (threads c ! j) \<Longrightarrow>
   threads (step n i c) ! j = threads c ! j"
  by (cases "j = i"; cases "threads c ! j") (simp_all add: step_def Let_def left_def)

lemma run_left:
  "j < length (threads c) \<Longrightarrow> left (threads c ! j) \<Longrightarrow>
   threads (run n sched c) ! j = threads c ! j"
proof (induction sched arbitrary: c)
  case Nil
  then show ?case by simp
next
  case (Cons i sched)
  from Cons.prems have s: "threads (step n i c) ! j = threads c ! j" by (rule step_left)
  with Cons.prems have "threads (run n sched (step n i c)) ! j = threads (step n i c) ! j"
    by (intro Cons.IH) simp_all
  with s show ?case by simp
qed

lemma step_other: "j \<noteq> i \<Longrightarrow> threads (step n i c) ! j = threads c ! j"
  by (simp add: step_def Let_def)

lemma run_other: "j \<noteq> i \<Longrightarrow> threads (run n (replicate k i) c) ! j = threads c ! j"
  by (induction k arbitrary: c) (simp_all add: step_other)

lemma step_self:
  assumes "i < length (threads c)"
  shows "threads (step n i c) ! i = snd (thread_step n (mem c) (threads c ! i))"
    and "mem (step n i c) = fst (thread_step n (mem c) (threads c ! i))"
  using assms by (simp_all add: step_def Let_def)

lemma solo_step:
  assumes "\<exists>k. P (threads (run n (replicate k i) (step n i c)) ! i)"
  shows "\<exists>k. P (threads (run n (replicate k i) c) ! i)"
proof -
  from assms obtain k where "P (threads (run n (replicate k i) (step n i c)) ! i)" ..
  then have "P (threads (run n (replicate (Suc k) i) c) ! i)" by simp
  then show ?thesis ..
qed

lemma solo_now:
  assumes "P (threads c ! i)"
  shows "\<exists>k. P (threads (run n (replicate k i) c) ! i)"
proof -
  from assms have "P (threads (run n (replicate 0 i) c) ! i)" by simp
  then show ?thesis ..
qed

lemma solo_Ret:
  assumes "i < length (threads c)" "threads c ! i = Ret"
  shows "\<exists>k. (\<lambda>p. \<exists>r. p = Done r) (threads (run n (replicate k i) c) ! i)"
proof (rule solo_step, rule solo_now)
  show "\<exists>r. threads (step n i c) ! i = Done r" using assms by (simp add: step_self)
qed

lemma solo_Loop_set:
  assumes "i < length (threads c)" "threads c ! i = Loop" "T_table (mem c) n = Some w"
  shows "\<exists>k. (\<lambda>p. \<exists>r. p = Done r) (threads (run n (replicate k i) c) ! i)"
proof (rule solo_step, rule solo_Ret)
  show "i < length (threads (step n i c))" using assms(1) by simp
  show "threads (step n i c) ! i = Ret" using assms by (simp add: step_self AtomicGet_def)
qed

lemma Done_left: "\<exists>k. (\<lambda>p. \<exists>r. p = Done r) (f k) \<Longrightarrow> \<exists>k. left (f k)"
  unfolding left_iff by blast

lemma solo_Cas:
  assumes "i < length (threads c)" "threads c ! i = Cas a"
  shows "\<exists>k. (\<lambda>p. \<exists>r. p = Done r) (threads (run n (replicate k i) c) ! i)"
proof (cases "T_table (mem c) n")
  case None
  show ?thesis
  proof (rule solo_step, rule solo_now)
    show "\<exists>r. threads (step n i c) ! i = Done r"
      using assms None by (simp add: step_self AtomicCas_def)
  qed
next
  case (Some w)
  let ?c1 = "step n i c"
  have 1: "threads ?c1 ! i = Drop a" "T_table (mem ?c1) n = Some w"
    using assms Some by (simp_all add: step_self AtomicCas_def)
  show ?thesis
  proof (rule solo_step, rule solo_step, rule solo_Loop_set)
    show "i < length (threads (step n i ?c1))" using assms(1) by simp
    show "threads (step n i ?c1) ! i = Loop" using assms(1) 1 by (simp add: step_self)
    show "T_table (mem (step n i ?c1)) n = Some w"
      using assms(1) 1 by (simp add: step_self delete_array_def)
  qed
qed

lemma solo_Alloc:
  assumes "i < length (threads c)" "threads c ! i = Alloc"
  shows "\<exists>k. left (threads (run n (replicate k i) c) ! i)"
proof (cases "n < 63 \<and> 2 ^ n \<le> avail (mem c)")
  case True
  then have c: "(n < 63 \<and> 2 ^ n \<le> avail (mem c)) \<longleftrightarrow> True" by simp
  show ?thesis
  proof (rule solo_step, rule Done_left, rule solo_Cas)
    show "i < length (threads (step n i c))" using assms(1) by simp
    show "threads (step n i c) ! i = Cas (next_addr (mem c))"
      using assms by (simp add: step_self new_array_eq c)
  qed
next
  case False
  then have c: "(n < 63 \<and> 2 ^ n \<le> avail (mem c)) \<longleftrightarrow> False" by simp
  show ?thesis
  proof (rule solo_step, rule solo_now)
    have "threads (step n i c) ! i = Raised"
      using assms by (simp add: step_self new_array_eq c)
    then show "left (threads (step n i c) ! i)" by (simp add: left_def)
  qed
qed

lemma solo_Loop:
  assumes "i < length (threads c)" "threads c ! i = Loop"
  shows "\<exists>k. left (threads (run n (replicate k i) c) ! i)"
proof (cases "T_table (mem c) n")
  case (Some w)
  with assms show ?thesis by (intro Done_left solo_Loop_set)
next
  case None
  show ?thesis
  proof (rule solo_step, rule solo_Alloc)
    show "i < length (threads (step n i c))" using assms(1) by simp
    show "threads (step n i c) ! i = Alloc"
      using assms None by (simp add: step_self AtomicGet_def)
  qed
qed

lemma solo_Drop:
  assumes "i < length (threads c)" "threads c ! i = Drop a"
  shows "\<exists>k. left (threads (run n (replicate k i) c) ! i)"
proof (rule solo_step, rule solo_Loop)
  show "i < length (threads (step n i c))" using assms(1) by simp
  show "threads (step n i c) ! i = Loop" using assms by (simp add: step_self)
qed

lemma solo_finishes:
  assumes "i < length (threads c)"
  shows "\<exists>k. left (threads (run n (replicate k i) c) ! i)"
proof (cases "threads c ! i")
  case Loop with assms show ?thesis by (rule solo_Loop)
next
  case Alloc with assms show ?thesis by (rule solo_Alloc)
next
  case (Cas a) with assms show ?thesis by (intro Done_left solo_Cas)
next
  case (Drop a) with assms show ?thesis by (rule solo_Drop)
next
  case Ret with assms show ?thesis by (intro Done_left solo_Ret)
next
  case (Done r)
  then have "left (threads c ! i)" by (simp add: left_def)
  then show ?thesis by (rule solo_now)
next
  case Raised
  then have "left (threads c ! i)" by (simp add: left_def)
  then show ?thesis by (rule solo_now)
qed

lemma finish_upto:
  "k \<le> length (threads c) \<Longrightarrow>
   \<exists>sched. \<forall>j<k. left (threads (run n sched c) ! j)"
proof (induction k)
  case 0
  then show ?case by simp
next
  case (Suc k)
  then obtain sched where s: "\<forall>j<k. left (threads (run n sched c) ! j)" by auto
  let ?c = "run n sched c"
  from Suc.prems have k: "k < length (threads ?c)" by simp
  then obtain m where r: "left (threads (run n (replicate m k) ?c) ! k)"
    using solo_finishes by blast
  have "left (threads (run n (sched @ replicate m k) c) ! j)" if "j < Suc k" for j
  proof (cases "j = k")
    case True
    with r show ?thesis by (simp add: run_append)
  next
    case False
    with that have jk: "j < k" by simp
    with s have q: "left (threads ?c ! j)" by blast
    from jk k have "j < length (threads ?c)" by simp
    then have "threads (run n (replicate m k) ?c) ! j = threads ?c ! j" using q by (rule run_left)
    with q show ?thesis by (simp add: run_append)
  qed
  then show ?case by blast
qed

lemma race_can_finish:
  "\<exists>sched'. \<forall>p\<in>set (threads (run n sched' c)). (\<exists>r. p = Done r) \<or> p = Raised"
proof -
  from finish_upto [of "length (threads c)" c n]
  obtain sched where "\<forall>j<length (threads c). left (threads (run n sched c) ! j)"
    by auto
  then have "\<forall>p\<in>set (threads (run n sched c)). left p"
    by (auto simp: in_set_conv_nth)
  then show ?thesis unfolding left_iff ..
qed

lemma finish_published_upto:
  assumes w: "T_table (mem c) n = Some w"
    and p: "\<forall>p\<in>set (threads c). p = Loop \<or> (\<exists>r. p = Done r)"
  shows "k \<le> length (threads c) \<Longrightarrow>
    \<exists>sched. (\<forall>j<k. \<exists>r. threads (run n sched c) ! j = Done r) \<and>
            (\<forall>j. k \<le> j \<longrightarrow> threads (run n sched c) ! j = threads c ! j)"
proof (induction k)
  case 0
  have "\<forall>j. threads (run n [] c) ! j = threads c ! j" by simp
  then show ?case by (intro exI [of _ "[]"]) simp
next
  case (Suc k)
  then obtain sched where d: "\<forall>j<k. \<exists>r. threads (run n sched c) ! j = Done r"
    and u: "\<forall>j. k \<le> j \<longrightarrow> threads (run n sched c) ! j = threads c ! j" by auto
  let ?c = "run n sched c"
  from Suc.prems have k: "k < length (threads c)" by simp
  then have kc: "k < length (threads ?c)" by simp
  from w have w': "T_table (mem ?c) n = Some w" by (rule slot_run)
  from u have tk: "threads ?c ! k = threads c ! k" by simp
  from p k have "threads c ! k = Loop \<or> (\<exists>r. threads c ! k = Done r)" by (simp add: nth_mem)
  with tk have "threads ?c ! k = Loop \<or> (\<exists>r. threads ?c ! k = Done r)" by simp
  then have "\<exists>m. (\<lambda>p. \<exists>r. p = Done r) (threads (run n (replicate m k) ?c) ! k)"
  proof
    assume "threads ?c ! k = Loop"
    with kc show ?thesis using w' by (rule solo_Loop_set)
  next
    assume "\<exists>r. threads ?c ! k = Done r"
    then show ?thesis by (rule solo_now)
  qed
  then obtain m r where r: "threads (run n (replicate m k) ?c) ! k = Done r" by blast
  let ?s = "sched @ replicate m k"
  have a: "\<exists>r. threads (run n ?s c) ! j = Done r" if "j < Suc k" for j
  proof (cases "j = k")
    case True
    with r show ?thesis by (simp add: run_append)
  next
    case False
    with that have "j < k" by simp
    with d obtain q where "threads ?c ! j = Done q" by blast
    with False have "threads (run n (replicate m k) ?c) ! j = Done q" by (simp add: run_other)
    then show ?thesis by (simp add: run_append)
  qed
  have b: "threads (run n ?s c) ! j = threads c ! j" if "Suc k \<le> j" for j
  proof -
    from that have "j \<noteq> k" "k \<le> j" by simp_all
    with u show ?thesis by (simp add: run_append run_other)
  qed
  from a b show ?case by blast
qed

lemma finish_published:
  assumes "T_table (mem c) n = Some w"
    and "\<forall>p\<in>set (threads c). p = Loop \<or> (\<exists>r. p = Done r)"
  shows "\<exists>sched. \<forall>p\<in>set (threads (run n sched c)). \<exists>r. p = Done r"
proof -
  from finish_published_upto [OF assms, of "length (threads c)"]
  obtain sched where "\<forall>j<length (threads c). \<exists>r. threads (run n sched c) ! j = Done r"
    by auto
  then have "\<forall>p\<in>set (threads (run n sched c)). \<exists>r. p = Done r"
    by (auto simp: in_set_conv_nth)
  then show ?thesis ..
qed

lemma race_all_return:
  assumes "n < 63" "2 ^ n \<le> k"
  shows "\<exists>sched. \<forall>p\<in>set (threads (run n sched (race_init k T))). \<exists>r. p = Done r"
proof (cases T)
  case 0
  then have "threads (run n [] (race_init k T)) = []" by (simp add: race_init_def)
  then have "\<forall>p\<in>set (threads (run n [] (race_init k T))). \<exists>r. p = Done r" by simp
  then show ?thesis ..
next
  case (Suc T')
  let ?c = "run n [0, 0, 0] (race_init k T)"
  from assms have c: "(n < 63 \<and> 2 ^ n \<le> k) \<longleftrightarrow> True" by simp
  have th: "threads ?c = (replicate T Loop)[0 := Done (Some 0)]"
    and sl: "T_table (mem ?c) n = Some 0"
    using Suc
    by (simp_all add: race_init_def TLockFreeSequence_init_def step_def AtomicGet_def
        AtomicCas_def new_array_eq c Let_def)
  have "\<forall>p\<in>set (threads ?c). p = Loop \<or> (\<exists>r. p = Done r)"
    unfolding th using set_update_subset_insert [of "replicate T Loop" 0 "Done (Some 0)"]
    by auto
  with sl obtain sched where "\<forall>p\<in>set (threads (run n sched ?c)). \<exists>r. p = Done r"
    using finish_published by blast
  then have "\<forall>p\<in>set (threads (run n ([0, 0, 0] @ sched) (race_init k T))). \<exists>r. p = Done r"
    by (simp only: run_append)
  then show ?thesis ..
qed

text \<open>
  Claim C1. Let any number \<open>T\<close> of threads run \<open>GetList n\<close> on a fresh container, in
  any interleaving of their accesses. At every moment: a published slot keeps its
  pointer whatever the threads do next; a thread that has returned has returned the
  non-null pointer of the slot; and an array a losing thread is about to delete is
  live, was never deleted, and is not the published one. Once all threads have
  returned: the slot holds one array \<open>w\<close>, every thread has returned \<open>w\<close>, \<open>w\<close> is the
  only live array, and every other array ever allocated has been deleted exactly once;
  after the destructor no array is live and every array ever allocated has been
  deleted exactly once. The same account of the arrays holds when some threads have
  left by the exception of \<open>new\<close>: once all threads have left, the live arrays are the
  published one, if there is one, and the destructor leaves none. From every moment of
  the race the threads can go on until all have left, and when the segment can be
  allocated at the start, there is a schedule on which all of them return.
\<close>

theorem race_single_winner:
  assumes "n < 64" and "c = run n sched (race_init k T)"
  shows "(\<forall>w sched'. T_table (mem c) n = Some w \<longrightarrow> T_table (mem (run n sched' c)) n = Some w)
    \<and> (\<forall>p. Done p \<in> set (threads c) \<longrightarrow> p = T_table (mem c) n \<and> p \<noteq> None)
    \<and> (\<forall>a. Drop a \<in> set (threads c) \<longrightarrow>
          a \<in> fst ` set (live (mem c)) \<and> a \<notin> set (deleted (mem c)) \<and>
          T_table (mem c) n \<noteq> Some a)
    \<and> (0 < T \<and> (\<forall>p\<in>set (threads c). \<exists>r. p = Done r) \<longrightarrow>
         (\<exists>w. T_table (mem c) n = Some w \<and> (\<forall>p\<in>set (threads c). p = Done (Some w)) \<and>
            map fst (live (mem c)) = [w] \<and> distinct (deleted (mem c)) \<and>
            set (deleted (mem c)) = {..<next_addr (mem c)} - {w} \<and>
            live (TLockFreeSequence_destroy (mem c)) = [] \<and>
            distinct (deleted (TLockFreeSequence_destroy (mem c))) \<and>
            set (deleted (TLockFreeSequence_destroy (mem c))) = {..<next_addr (mem c)}))
    \<and> ((\<forall>p\<in>set (threads c). (\<exists>r. p = Done r) \<or> p = Raised) \<longrightarrow>
         map fst (live (mem c)) = (case T_table (mem c) n of None \<Rightarrow> [] | Some w \<Rightarrow> [w]) \<and>
         distinct (deleted (mem c)) \<and>
         set (deleted (mem c)) = {..<next_addr (mem c)} - set (map fst (live (mem c))) \<and>
         live (TLockFreeSequence_destroy (mem c)) = [] \<and>
         distinct (deleted (TLockFreeSequence_destroy (mem c))) \<and>
         set (deleted (TLockFreeSequence_destroy (mem c))) = {..<next_addr (mem c)})
    \<and> (\<exists>sched'. \<forall>p\<in>set (threads (run n sched' c)). (\<exists>r. p = Done r) \<or> p = Raised)
    \<and> (n < 63 \<and> 2 ^ n \<le> k \<longrightarrow>
         (\<exists>sched0. \<forall>p\<in>set (threads (run n sched0 (race_init k T))). \<exists>r. p = Done r))"
proof -
  have i: "inv n c" unfolding assms(2) by (rule inv_reachable)
  have len: "length (threads c) = T" by (simp add: assms(2) race_init_def)
  have a: "T_table (mem (run n sched' c)) n = Some w" if "T_table (mem c) n = Some w"
    for w sched' using that by (rule slot_run)
  have b: "p = T_table (mem c) n \<and> p \<noteq> None" if "Done p \<in> set (threads c)" for p
    using i that by (auto simp: inv_def returned_ok_def)
  note d = dropping [OF i]
  have e: "\<exists>w. T_table (mem c) n = Some w \<and> (\<forall>p\<in>set (threads c). p = Done (Some w)) \<and>
            map fst (live (mem c)) = [w] \<and> distinct (deleted (mem c)) \<and>
            set (deleted (mem c)) = {..<next_addr (mem c)} - {w} \<and>
            live (TLockFreeSequence_destroy (mem c)) = [] \<and>
            distinct (deleted (TLockFreeSequence_destroy (mem c))) \<and>
            set (deleted (TLockFreeSequence_destroy (mem c))) = {..<next_addr (mem c)}"
    if "0 < T" "\<forall>p\<in>set (threads c). \<exists>r. p = Done r"
  proof -
    from that(1) len have "threads c \<noteq> []" by auto
    with i assms(1) show ?thesis using that(2) by (rule quiescent)
  qed
  have g: "map fst (live (mem c)) = (case T_table (mem c) n of None \<Rightarrow> [] | Some w \<Rightarrow> [w]) \<and>
         distinct (deleted (mem c)) \<and>
         set (deleted (mem c)) = {..<next_addr (mem c)} - set (map fst (live (mem c))) \<and>
         live (TLockFreeSequence_destroy (mem c)) = [] \<and>
         distinct (deleted (TLockFreeSequence_destroy (mem c))) \<and>
         set (deleted (TLockFreeSequence_destroy (mem c))) = {..<next_addr (mem c)}"
    if "\<forall>p\<in>set (threads c). (\<exists>r. p = Done r) \<or> p = Raised"
  proof -
    from that have "\<forall>p\<in>set (threads c). left p" unfolding left_iff .
    with i assms(1) have q: "map fst (live (mem c)) = slot_list (mem c) n \<and>
         distinct (deleted (mem c)) \<and>
         set (deleted (mem c)) = {..<next_addr (mem c)} - set (slot_list (mem c) n) \<and>
         live (TLockFreeSequence_destroy (mem c)) = [] \<and>
         distinct (deleted (TLockFreeSequence_destroy (mem c))) \<and>
         set (deleted (TLockFreeSequence_destroy (mem c))) = {..<next_addr (mem c)}"
      by (rule quiescent_left)
    then have "set (deleted (mem c)) = {..<next_addr (mem c)} - set (map fst (live (mem c)))"
      by (simp only:)
    with q show ?thesis unfolding slot_list_def by (simp only: simp_thms)
  qed
  note f = race_can_finish [of n c]
  have h: "\<exists>sched0. \<forall>p\<in>set (threads (run n sched0 (race_init k T))). \<exists>r. p = Done r"
    if "n < 63 \<and> 2 ^ n \<le> k"
    using that by (intro race_all_return) simp_all
  show ?thesis
  proof (intro conjI allI impI)
    show "T_table (mem (run n sched' c)) n = Some w" if "T_table (mem c) n = Some w"
      for w sched' using that by (rule a)
    show "p = T_table (mem c) n" "p \<noteq> None" if "Done p \<in> set (threads c)" for p
      using b [OF that] by blast+
    show "a \<in> fst ` set (live (mem c))" "a \<notin> set (deleted (mem c))"
      "T_table (mem c) n \<noteq> Some a" if "Drop a \<in> set (threads c)" for a
      using d [OF that] by simp_all
    show "\<exists>w. T_table (mem c) n = Some w \<and> (\<forall>p\<in>set (threads c). p = Done (Some w)) \<and>
            map fst (live (mem c)) = [w] \<and> distinct (deleted (mem c)) \<and>
            set (deleted (mem c)) = {..<next_addr (mem c)} - {w} \<and>
            live (TLockFreeSequence_destroy (mem c)) = [] \<and>
            distinct (deleted (TLockFreeSequence_destroy (mem c))) \<and>
            set (deleted (TLockFreeSequence_destroy (mem c))) = {..<next_addr (mem c)}"
      if "0 < T \<and> (\<forall>p\<in>set (threads c). \<exists>r. p = Done r)"
      using that e by blast
    show "\<exists>sched'. \<forall>p\<in>set (threads (run n sched' c)). (\<exists>r. p = Done r) \<or> p = Raised"
      by (rule f)
    show "\<exists>sched0. \<forall>p\<in>set (threads (run n sched0 (race_init k T))). \<exists>r. p = Done r"
      if "n < 63 \<and> 2 ^ n \<le> k" using that by (rule h)
  qed (use g in blast)+
qed

lemma race_example:
  "run 1 [0, 1, 0, 1, 0, 1, 1, 1, 1] (race_init 10 2) =
     \<lparr>mem = \<lparr>T_table = (\<lambda>i. None)(1 := Some 0), live = [(0, 2)], next_addr = 2, deleted = [1],
             avail = 8\<rparr>,
      threads = [Done (Some 0), Done (Some 0)]\<rparr>"
proof -
  have r: "replicate 2 Loop = [Loop, Loop]" by (simp add: numeral_2_eq_2)
  show ?thesis
    by (simp add: race_init_def r TLockFreeSequence_init_def step_def AtomicGet_def
        AtomicCas_def new_array_def delete_array_def Let_def)
qed

theorem race_single_winner_witness:
  "(1::nat) < 64 \<and> (0::nat) < 2 \<and>
   threads (run 1 [0, 1, 0, 1, 0, 1, 1, 1, 1] (race_init 10 2)) = [Done (Some 0), Done (Some 0)] \<and>
   (\<exists>w. T_table (mem (run 1 [0, 1, 0, 1, 0, 1, 1, 1, 1] (race_init 10 2))) 1 = Some w \<and>
      map fst (live (mem (run 1 [0, 1, 0, 1, 0, 1, 1, 1, 1] (race_init 10 2)))) = [w] \<and>
      deleted (mem (run 1 [0, 1, 0, 1, 0, 1, 1, 1, 1] (race_init 10 2))) = [1] \<and>
      live (TLockFreeSequence_destroy
        (mem (run 1 [0, 1, 0, 1, 0, 1, 1, 1, 1] (race_init 10 2)))) = [] \<and>
      distinct (deleted (TLockFreeSequence_destroy
        (mem (run 1 [0, 1, 0, 1, 0, 1, 1, 1, 1] (race_init 10 2))))))"
proof -
  define c where "c = run 1 [0, 1, 0, 1, 0, 1, 1, 1, 1] (race_init 10 2)"
  have n: "(1::nat) < 64" and t: "(0::nat) < 2" by simp_all
  have th: "threads c = [Done (Some 0), Done (Some 0)]"
    unfolding c_def by (simp only: race_example cstate.simps)
  have q: "\<forall>p\<in>set (threads c). \<exists>r. p = Done r" unfolding th by simp
  have dl: "deleted (mem c) = [1]"
    unfolding c_def by (simp only: race_example cstate.simps state.simps)
  note T = race_single_winner [OF n c_def]
  have "\<exists>w. T_table (mem c) 1 = Some w \<and> (\<forall>p\<in>set (threads c). p = Done (Some w)) \<and>
            map fst (live (mem c)) = [w] \<and> distinct (deleted (mem c)) \<and>
            set (deleted (mem c)) = {..<next_addr (mem c)} - {w} \<and>
            live (TLockFreeSequence_destroy (mem c)) = [] \<and>
            distinct (deleted (TLockFreeSequence_destroy (mem c))) \<and>
            set (deleted (TLockFreeSequence_destroy (mem c))) = {..<next_addr (mem c)}"
    by (rule T [THEN conjunct2, THEN conjunct2, THEN conjunct2, THEN conjunct1, THEN mp])
      (intro conjI t q)
  then obtain w where w: "T_table (mem c) 1 = Some w" "map fst (live (mem c)) = [w]"
    "live (TLockFreeSequence_destroy (mem c)) = []"
    "distinct (deleted (TLockFreeSequence_destroy (mem c)))"
    by (elim exE conjE)
  have "\<exists>w. T_table (mem c) 1 = Some w \<and> map fst (live (mem c)) = [w] \<and>
      deleted (mem c) = [1] \<and> live (TLockFreeSequence_destroy (mem c)) = [] \<and>
      distinct (deleted (TLockFreeSequence_destroy (mem c)))"
    by (intro exI [of _ w] conjI w dl)
  with n t th show ?thesis unfolding c_def by (intro conjI)
qed

section \<open>The bounded memory stream and the builders\<close>

lemma decimal_length: "0 < k \<Longrightarrow> n < 10 ^ k \<Longrightarrow> length (decimal n) \<le> k"
proof (induction n arbitrary: k rule: decimal.induct)
  case (1 n)
  show ?case
  proof (cases "n < 10")
    case True
    with "1.prems" show ?thesis by (subst decimal.simps) simp
  next
    case False
    from "1.prems" obtain j where k: "k = Suc j" by (cases k) simp_all
    with False "1.prems" have "0 < j" by (cases j) simp_all
    moreover from "1.prems" k have "n div 10 < 10 ^ j" by (simp add: less_mult_imp_div_less)
    ultimately have "length (decimal (n div 10)) \<le> j" using "1.IH" [OF False] by simp
    with False k show ?thesis by (subst decimal.simps) simp
  qed
qed

lemma decimal_length_pos: "0 < length (decimal n)"
  by (subst decimal.simps) simp

lemma decimal_size_t: "n < 2 ^ 64 \<Longrightarrow> length (decimal n) \<le> 20"
proof -
  assume "n < 2 ^ 64"
  moreover have "(2::nat) ^ 64 < 10 ^ 20" by simp
  ultimately have "n < 10 ^ 20" by (rule less_trans)
  then show ?thesis by (intro decimal_length) simp_all
qed

lemma rendered_simps [simp]:
  "rendered [] = []" "rendered (x # xs) = render x @ rendered xs"
  "rendered (xs @ ys) = rendered xs @ rendered ys"
  by (simp_all add: rendered_def)

lemma put_wrote:
  assumes "End (snd st) \<le> length (Mem (fst st))"
  shows "put x st = wrote (render x) st"
proof (cases x)
  case (Str s)
  then show ?thesis by (simp add: DoWrite_def wrote_def Let_def)
next
  case (Chr c)
  show ?thesis
  proof (cases "Buf (snd st) < End (snd st)")
    case True
    with assms have "Buf (snd st) < length (Mem (fst st))" by simp
    then have "(Mem (fst st))[Buf (snd st) := c] =
        take (Buf (snd st)) (Mem (fst st)) @ [c] @ drop (Suc (Buf (snd st))) (Mem (fst st))"
      by (simp add: upd_conv_take_nth_drop)
    with True Chr show ?thesis by (simp add: DoWriteC_def wrote_def Let_def)
  next
    case False
    with Chr show ?thesis by (simp add: DoWriteC_def wrote_def Let_def)
  qed
next
  case (Num n)
  then show ?thesis by (simp add: DoWrite_def wrote_def Let_def)
qed

lemma wrote_Nil: "Buf (snd st) \<le> End (snd st) \<Longrightarrow> wrote [] st = Inr st"
  by (cases st) (simp add: wrote_def)

lemma wrote_append:
  assumes "End (snd st) \<le> length (Mem (fst st))"
  shows "(case wrote r st of Inl e \<Rightarrow> Inl e | Inr st' \<Rightarrow> wrote q st') = wrote (r @ q) st"
proof (cases "Buf (snd st) + length r \<le> End (snd st)")
  case False
  then show ?thesis by (simp add: wrote_def)
next
  case True
  let ?B = "Buf (snd st)"
  let ?M = "Mem (fst st)"
  from True assms have B: "?B + length r \<le> length ?M" by simp
  have t: "take (?B + length r) (take ?B ?M @ r @ drop (?B + length r) ?M) = take ?B ?M @ r"
    using B by simp
  have d: "drop (?B + length r + length q) (take ?B ?M @ r @ drop (?B + length r) ?M)
           = drop (?B + length r + length q) ?M"
    using B by (simp add: add.commute add.left_commute)
  show ?thesis using True t d by (simp add: wrote_def add.assoc)
qed

lemma wrote_keeps:
  assumes "wrote r st = Inr st'" "End (snd st) \<le> length (Mem (fst st))"
  shows "End (snd st') \<le> length (Mem (fst st')) \<and> Buf (snd st') \<le> End (snd st')"
  using assms by (auto simp: wrote_def split: if_splits)

lemma puts_wrote:
  "Buf (snd st) \<le> End (snd st) \<Longrightarrow> End (snd st) \<le> length (Mem (fst st)) \<Longrightarrow>
   puts xs st = wrote (rendered xs) st"
proof (induction xs arbitrary: st)
  case Nil
  then show ?case by (simp add: wrote_Nil)
next
  case (Cons x xs)
  have "puts (x # xs) st = (case wrote (render x) st of Inl e \<Rightarrow> Inl e | Inr st' \<Rightarrow> puts xs st')"
    by (simp add: put_wrote [OF Cons.prems(2)])
  also have "\<dots> = (case wrote (render x) st of Inl e \<Rightarrow> Inl e | Inr st' \<Rightarrow> wrote (rendered xs) st')"
    using Cons.IH wrote_keeps [OF _ Cons.prems(2)] by (auto split: sum.splits)
  also have "\<dots> = wrote (render x @ rendered xs) st"
    using Cons.prems(2) by (rule wrote_append)
  finally show ?case by simp
qed


lemma length_GET_request:
  "length (GET_request msg loc) =
     26 + length (Service loc) + length (Host loc)
     + (if Data msg \<noteq> [] then 1 + length (Data msg) else 0)
     + (if Port loc \<noteq> [] then 1 + length (Port loc) else 0)"
  by (simp add: GET_request_def CRLF_def)

lemma length_POST_header:
  "length (POST_header msg loc) =
     45 + length (Service loc) + length (Host loc)
     + (if Port loc \<noteq> [] then 1 + length (Port loc) else 0)
     + length (decimal (length (Data msg)))"
  by (simp add: POST_header_def CRLF_def)

lemma wrote_init:
  "wrote r (TRequestData_init k, TMemoryOutput_init 0 (length (Mem (TRequestData_init k)))) =
     (if length r \<le> k
      then Inr (\<lparr>Mem = r @ replicate (k - length r) (CHR 0x00), Parts = []\<rparr>,
                \<lparr>Buf = length r, End = k\<rparr>)
      else Inl MemoryOutputExhausted)"
  by (simp add: wrote_def TRequestData_init_def TMemoryOutput_init_def)

lemma puts_init:
  "puts xs (TRequestData_init k, TMemoryOutput_init 0 (length (Mem (TRequestData_init k)))) =
     (if length (rendered xs) \<le> k
      then Inr (\<lparr>Mem = rendered xs @ replicate (k - length (rendered xs)) (CHR 0x00), Parts = []\<rparr>,
                \<lparr>Buf = length (rendered xs), End = k\<rparr>)
      else Inl MemoryOutputExhausted)"
proof -
  let ?st = "(TRequestData_init k, TMemoryOutput_init 0 (length (Mem (TRequestData_init k))))"
  have "Buf (snd ?st) \<le> End (snd ?st)" "End (snd ?st) \<le> length (Mem (fst ?st))"
    by (simp_all add: TMemoryOutput_init_def)
  then have "puts xs ?st = wrote (rendered xs) ?st" by (rule puts_wrote)
  then show ?thesis by (simp only: wrote_init)
qed

lemma TRequestGet_Build_eq:
  "TRequestGet_Build msg loc =
     (if length (GET_request msg loc)
           \<le> 50 + length (Service loc) + length (Data msg) + length (Host loc)
      then Inr \<lparr>Mem = GET_request msg loc @
                  replicate (50 + length (Service loc) + length (Data msg) + length (Host loc)
                             - length (GET_request msg loc)) (CHR 0x00),
                Parts = [(MemPtr 0, length (GET_request msg loc))]\<rparr>
      else Inl MemoryOutputExhausted)"
proof -
  have r: "rendered ([Str ''GET /'', Str (Service loc)]
                    @ (if Data msg \<noteq> [] then [Chr CHR ''?'', Str (Data msg)] else [])
                    @ [Str ('' HTTP/1.1'' @ CRLF @ ''Host: ''), Str (Host loc)]
                    @ (if Port loc \<noteq> [] then [Str '':'', Str (Port loc)] else [])
                    @ [Str (CRLF @ CRLF)]) = GET_request msg loc"
    by (simp add: GET_request_def)
  show ?thesis
    unfolding TRequestGet_Build_def Let_def puts_init r
    by (simp add: AddPart_def)
qed

lemma TRequestPost_Build_eq:
  "TRequestPost_Build msg loc =
     (if length (POST_header msg loc) \<le> 100 + length (Service loc) + length (Host loc)
      then Inr \<lparr>Mem = POST_header msg loc @
                  replicate (100 + length (Service loc) + length (Host loc)
                             - length (POST_header msg loc)) (CHR 0x00),
                Parts = [(MemPtr 0, length (POST_header msg loc)),
                         (DataPtr 0, length (Data msg))]\<rparr>
      else Inl MemoryOutputExhausted)"
proof -
  have r: "rendered ([Str ''POST /'', Str (Service loc),
                     Str ('' HTTP/1.1'' @ CRLF @ ''Host: ''), Str (Host loc)]
                    @ (if Port loc \<noteq> [] then [Str '':'', Str (Port loc)] else [])
                    @ [Str (CRLF @ ''Content-Length: ''), Num (length (Data msg)),
                       Str (CRLF @ CRLF)]) = POST_header msg loc"
    by (simp add: POST_header_def)
  show ?thesis
    unfolding TRequestPost_Build_def Let_def puts_init r
    by (simp add: AddPart_def)
qed

lemma GET_fits:
  assumes "length (Port loc) \<le> 22"
  shows "length (GET_request msg loc)
           \<le> 50 + length (Service loc) + length (Data msg) + length (Host loc)"
  using assms by (simp add: length_GET_request)

lemma POST_fits:
  assumes "length (Port loc) \<le> 34" "length (Data msg) < 2 ^ 64"
  shows "length (POST_header msg loc) \<le> 100 + length (Service loc) + length (Host loc)"
  using assms(1) decimal_size_t [OF assms(2)] by (simp add: length_POST_header)

lemma SendTo_scratch:
  "SendTo msg \<lparr>Mem = r @ z, Parts = [(MemPtr 0, length r)]\<rparr> = r"
  by (simp add: SendTo_def)

lemma SendTo_scratch_data:
  "SendTo msg \<lparr>Mem = r @ z, Parts = [(MemPtr 0, length r), (DataPtr 0, length (Data msg))]\<rparr>
     = r @ Data msg"
  by (simp add: SendTo_def)

text \<open>
  Claim C4, amended. When the port string has at most 22 bytes, the GET builder returns
  and the bytes it wrote into its scratch region are at most the
  \<open>50 + len(Service) + len(Data) + len(Host)\<close> bytes of the region. When the port
  string has at most 34 bytes and the length of the data is a \<open>size_t\<close>, the POST
  builder returns and its header fragment, port suffix and decimal content length
  included, is at most the \<open>100 + len(Service) + len(Host)\<close> bytes of its region. A
  builder raises the stream's exhaustion error exactly when its output is longer than
  its region.
\<close>

theorem builders_fit_scratch:
  "(length (Port loc) \<le> 22 \<longrightarrow>
      (\<exists>req. TRequestGet_Build msg loc = Inr req \<and>
         Parts req = [(MemPtr 0, length (GET_request msg loc))] \<and>
         length (GET_request msg loc) \<le> length (Mem req) \<and>
         length (Mem req) = 50 + length (Service loc) + length (Data msg) + length (Host loc)))
   \<and> (length (Port loc) \<le> 34 \<and> length (Data msg) < 2 ^ 64 \<longrightarrow>
      (\<exists>req. TRequestPost_Build msg loc = Inr req \<and>
         Parts req = [(MemPtr 0, length (POST_header msg loc)), (DataPtr 0, length (Data msg))] \<and>
         length (POST_header msg loc) \<le> length (Mem req) \<and>
         length (Mem req) = 100 + length (Service loc) + length (Host loc)))
   \<and> (TRequestGet_Build msg loc = Inl MemoryOutputExhausted \<longleftrightarrow>
        50 + length (Service loc) + length (Data msg) + length (Host loc)
          < length (GET_request msg loc))
   \<and> (TRequestPost_Build msg loc = Inl MemoryOutputExhausted \<longleftrightarrow>
        100 + length (Service loc) + length (Host loc) < length (POST_header msg loc))"
proof -
  have g: "\<exists>req. TRequestGet_Build msg loc = Inr req \<and>
         Parts req = [(MemPtr 0, length (GET_request msg loc))] \<and>
         length (GET_request msg loc) \<le> length (Mem req) \<and>
         length (Mem req) = 50 + length (Service loc) + length (Data msg) + length (Host loc)"
    if "length (Port loc) \<le> 22"
    using GET_fits [OF that, of msg] by (simp add: TRequestGet_Build_eq)
  have p: "\<exists>req. TRequestPost_Build msg loc = Inr req \<and>
         Parts req = [(MemPtr 0, length (POST_header msg loc)), (DataPtr 0, length (Data msg))] \<and>
         length (POST_header msg loc) \<le> length (Mem req) \<and>
         length (Mem req) = 100 + length (Service loc) + length (Host loc)"
    if "length (Port loc) \<le> 34" "length (Data msg) < 2 ^ 64"
    using POST_fits [OF that] by (simp add: TRequestPost_Build_eq)
  have ge: "TRequestGet_Build msg loc = Inl MemoryOutputExhausted \<longleftrightarrow>
        50 + length (Service loc) + length (Data msg) + length (Host loc)
          < length (GET_request msg loc)"
    by (simp add: TRequestGet_Build_eq not_le)
  have pe: "TRequestPost_Build msg loc = Inl MemoryOutputExhausted \<longleftrightarrow>
        100 + length (Service loc) + length (Host loc) < length (POST_header msg loc)"
    by (simp add: TRequestPost_Build_eq not_le)
  from g p ge pe show ?thesis by blast
qed

theorem builders_fit_scratch_witness:
  "length (Port (example_loc ''8080'')) \<le> 22 \<and>
   length (Data (example_msg ''q=1'')) < 2 ^ 64 \<and>
   (\<exists>req. TRequestGet_Build (example_msg ''q=1'') (example_loc ''8080'') = Inr req \<and>
      Parts req = [(MemPtr 0, 52)] \<and> length (Mem req) = 70) \<and>
   (\<exists>req. TRequestPost_Build (example_msg ''q=1'') (example_loc ''8080'') = Inr req \<and>
      Parts req = [(MemPtr 0, 68), (DataPtr 0, 3)] \<and> length (Mem req) = 117)"
  using builders_fit_scratch [of "example_loc ''8080''" "example_msg ''q=1''"]
  by (auto simp: example_loc_def example_msg_def length_GET_request length_POST_header
      decimal.simps digit_def)

text \<open>
  The claim as stated, for every location: a port string of 23 bytes with non-empty
  data exhausts the scratch region of the GET builder, and one of 54 bytes that of the
  POST builder.
\<close>

theorem builders_overflow_counterexample:
  "TRequestGet_Build (example_msg ''q'') (example_loc ''00000000000000000000080'')
     = Inl MemoryOutputExhausted \<and>
   TRequestPost_Build (example_msg '''')
     (example_loc ''000000000000000000000000000000000000000000000000000080'')
     = Inl MemoryOutputExhausted"
  by (simp add: TRequestGet_Build_eq TRequestPost_Build_eq example_loc_def example_msg_def
      length_GET_request length_POST_header decimal.simps digit_def)

text \<open>
  Claim C5, amended. For every message and every location whose port string has at
  most 22 bytes, the GET builder returns a request whose bytes on the wire are exactly
  \<open>GET /\<close>, the service, \<open>?\<close> and the data when the data is non-empty,
  \<open> HTTP/1.1 CRLF Host: \<close>, the host, \<open>:\<close> and the port when the port is non-empty,
  and \<open>CRLF CRLF\<close>; whenever the builder returns, its single fragment is these bytes.
  For host example.com, service search, empty port and empty data they are
  \<open>GET /search HTTP/1.1 CRLF Host: example.com CRLF CRLF\<close>.
\<close>

theorem TRequestGet_Build_output:
  "(length (Port loc) \<le> 22 \<longrightarrow>
      (\<exists>req. TRequestGet_Build msg loc = Inr req \<and> SendTo msg req = GET_request msg loc))
   \<and> (\<forall>req. TRequestGet_Build msg loc = Inr req \<longrightarrow>
         Parts req = [(MemPtr 0, length (GET_request msg loc))] \<and>
         SendTo msg req = GET_request msg loc)
   \<and> map_sum id (SendTo (example_msg ''''))
        (TRequestGet_Build (example_msg '''') (example_loc ''''))
      = Inr (''GET /search HTTP/1.1'' @ CRLF @ ''Host: example.com'' @ CRLF @ CRLF)"
proof -
  have r: "Parts req = [(MemPtr 0, length (GET_request msg loc))] \<and>
           SendTo msg req = GET_request msg loc"
    if "TRequestGet_Build msg loc = Inr req" for msg loc req
    using that by (auto simp: TRequestGet_Build_eq SendTo_scratch split: if_splits)
  have t: "\<exists>req. TRequestGet_Build msg loc = Inr req" if "length (Port loc) \<le> 22"
    using GET_fits [OF that, of msg] by (simp add: TRequestGet_Build_eq)
  have "length (Port (example_loc '''')) \<le> 22" by (simp add: example_loc_def)
  then have "\<exists>req. TRequestGet_Build (example_msg '''') (example_loc '''') = Inr req"
    using GET_fits [of "example_loc ''''" "example_msg ''''"]
    by (simp add: TRequestGet_Build_eq)
  then obtain req where e: "TRequestGet_Build (example_msg '''') (example_loc '''') = Inr req" ..
  from r [OF e] have "SendTo (example_msg '''') req
      = ''GET /search HTTP/1.1'' @ CRLF @ ''Host: example.com'' @ CRLF @ CRLF"
    by (simp add: GET_request_def example_msg_def example_loc_def)
  with e have x: "map_sum id (SendTo (example_msg ''''))
        (TRequestGet_Build (example_msg '''') (example_loc ''''))
      = Inr (''GET /search HTTP/1.1'' @ CRLF @ ''Host: example.com'' @ CRLF @ CRLF)"
    by simp
  from r t x show ?thesis by blast
qed

theorem TRequestGet_Build_output_witness:
  "length (Port (example_loc ''8080'')) \<le> 22 \<and>
   (\<exists>req. TRequestGet_Build (example_msg ''q=1'') (example_loc ''8080'') = Inr req \<and>
      SendTo (example_msg ''q=1'') req
        = ''GET /search?q=1 HTTP/1.1'' @ CRLF @ ''Host: example.com:8080'' @ CRLF @ CRLF)"
  using TRequestGet_Build_output [of "example_loc ''8080''" "example_msg ''q=1''"]
  by (simp add: example_loc_def example_msg_def GET_request_def)

text \<open>
  The claim as stated, for every location: with a port string of 24 bytes the GET
  builder raises and produces no output.
\<close>

theorem TRequestGet_Build_counterexample:
  "TRequestGet_Build (example_msg '''') (example_loc ''000000000000000000000080'')
     = Inl MemoryOutputExhausted"
  by (simp add: TRequestGet_Build_eq example_loc_def example_msg_def length_GET_request)

text \<open>
  Claim C6, amended. For every location whose port string has at most 34 bytes and
  every message whose data length is a \<open>size_t\<close>, the POST builder returns a request
  of exactly two fragments; whenever it returns, the first fragment is the header block
  \<open>POST /\<close>, service, \<open> HTTP/1.1 CRLF Host: \<close>, host, \<open>:\<close> and port when the port is
  non-empty, \<open> CRLF Content-Length: \<close>, the decimal length of the data and
  \<open>CRLF CRLF\<close>, and the second is the pointer to the message's own data with the
  data's length: the data is referenced, not copied.
\<close>

theorem TRequestPost_Build_output:
  "(length (Port loc) \<le> 34 \<and> length (Data msg) < 2 ^ 64 \<longrightarrow>
      (\<exists>req. TRequestPost_Build msg loc = Inr req \<and> SendTo msg req = POST_header msg loc @ Data msg))
   \<and> (\<forall>req. TRequestPost_Build msg loc = Inr req \<longrightarrow>
         Parts req = [(MemPtr 0, length (POST_header msg loc)), (DataPtr 0, length (Data msg))] \<and>
         part_bytes msg req (Parts req ! 0) = POST_header msg loc \<and>
         part_bytes msg req (Parts req ! 1) = Data msg \<and>
         SendTo msg req = POST_header msg loc @ Data msg)
   \<and> map_sum id (\<lambda>req. map (part_bytes (example_msg ''q=1'') req) (Parts req))
        (TRequestPost_Build (example_msg ''q=1'') (example_loc ''''))
      = Inr [''POST /search HTTP/1.1'' @ CRLF @ ''Host: example.com'' @ CRLF
               @ ''Content-Length: 3'' @ CRLF @ CRLF,
             ''q=1'']"
proof -
  have r: "Parts req = [(MemPtr 0, length (POST_header msg loc)), (DataPtr 0, length (Data msg))] \<and>
         part_bytes msg req (Parts req ! 0) = POST_header msg loc \<and>
         part_bytes msg req (Parts req ! 1) = Data msg \<and>
         SendTo msg req = POST_header msg loc @ Data msg"
    if "TRequestPost_Build msg loc = Inr req" for msg loc req
    using that by (auto simp: TRequestPost_Build_eq SendTo_scratch_data split: if_splits)
  have t: "\<exists>req. TRequestPost_Build msg loc = Inr req"
    if "length (Port loc) \<le> 34" "length (Data msg) < 2 ^ 64" for msg loc
    using POST_fits [OF that] by (simp add: TRequestPost_Build_eq)
  have fit: "length (POST_header (example_msg ''q=1'') (example_loc ''''))
      \<le> 100 + length (Service (example_loc '''')) + length (Host (example_loc ''''))"
    by (rule POST_fits) (simp_all add: example_loc_def example_msg_def)
  have h: "POST_header (example_msg ''q=1'') (example_loc '''')
      = ''POST /search HTTP/1.1'' @ CRLF @ ''Host: example.com'' @ CRLF
               @ ''Content-Length: 3'' @ CRLF @ CRLF"
    by (simp add: POST_header_def example_msg_def example_loc_def decimal.simps digit_def)
  have d: "Data (example_msg ''q=1'') = ''q=1''" by (simp add: example_msg_def)
  have "map_sum id (\<lambda>req. map (part_bytes (example_msg ''q=1'') req) (Parts req))
        (TRequestPost_Build (example_msg ''q=1'') (example_loc ''''))
      = Inr [POST_header (example_msg ''q=1'') (example_loc ''''), Data (example_msg ''q=1'')]"
    using fit by (simp add: TRequestPost_Build_eq)
  then have x: "map_sum id (\<lambda>req. map (part_bytes (example_msg ''q=1'') req) (Parts req))
        (TRequestPost_Build (example_msg ''q=1'') (example_loc ''''))
      = Inr [''POST /search HTTP/1.1'' @ CRLF @ ''Host: example.com'' @ CRLF
               @ ''Content-Length: 3'' @ CRLF @ CRLF,
             ''q=1'']"
    by (simp only: h d)
  from r t x show ?thesis by blast
qed

theorem TRequestPost_Build_output_witness:
  "length (Port (example_loc ''8080'')) \<le> 34 \<and>
   length (Data (example_msg ''hello world'')) < 2 ^ 64 \<and>
   (\<exists>req. TRequestPost_Build (example_msg ''hello world'') (example_loc ''8080'') = Inr req \<and>
      SendTo (example_msg ''hello world'') req
        = ''POST /search HTTP/1.1'' @ CRLF @ ''Host: example.com:8080'' @ CRLF
            @ ''Content-Length: 11'' @ CRLF @ CRLF @ ''hello world'')"
  using TRequestPost_Build_output [of "example_loc ''8080''" "example_msg ''hello world''"]
  by (simp add: example_loc_def example_msg_def POST_header_def decimal.simps digit_def)

text \<open>
  The claim as stated, for every location: with a port string of 60 bytes the POST
  builder raises and produces no fragment.
\<close>

theorem TRequestPost_Build_counterexample:
  "TRequestPost_Build (example_msg ''q=1'')
     (example_loc ''000000000000000000000000000000000000000000000000000000008080'')
     = Inl MemoryOutputExhausted"
  by (simp add: TRequestPost_Build_eq example_loc_def example_msg_def length_POST_header
      decimal.simps digit_def)

text \<open>
  Claim C7. The FULL builder allocates an empty scratch region and returns a request
  whose only fragment is the pointer to the message's data with the data's length, so
  that the bytes on the wire are the data; the location is ignored, and empty data
  gives one fragment of length 0.
\<close>

theorem TRequestFull_Build_passthrough:
  "TRequestFull_Build msg loc = \<lparr>Mem = [], Parts = [(DataPtr 0, length (Data msg))]\<rparr>
   \<and> map (part_bytes msg (TRequestFull_Build msg loc)) (Parts (TRequestFull_Build msg loc))
       = [Data msg]
   \<and> SendTo msg (TRequestFull_Build msg loc) = Data msg
   \<and> TRequestFull_Build msg loc = TRequestFull_Build msg loc'
   \<and> TRequestFull_Build (msg\<lparr>Data := []\<rparr>) loc = \<lparr>Mem = [], Parts = [(DataPtr 0, 0)]\<rparr>"
  by (simp add: TRequestFull_Build_def TRequestData_init_def AddPart_def SendTo_def)

section \<open>The request type of MakeFullRequest\<close>

text \<open>
  Claim C8. A requested type \<open>Any\<close> resolves to GET exactly when the content is empty
  and the scheme is http, https or http2, and to POST in every other case; the
  requested types Post, Get, Put and Delete are used unchanged.
\<close>

theorem ResolveRequestType_cases:
  "(ResolveRequestType ReqAny content scheme = ReqGet \<longleftrightarrow>
      content = [] \<and> (scheme = ''http'' \<or> scheme = ''https'' \<or> scheme = ''http2''))
   \<and> (ResolveRequestType ReqAny content scheme = ReqPost \<longleftrightarrow>
      \<not> (content = [] \<and> (scheme = ''http'' \<or> scheme = ''https'' \<or> scheme = ''http2'')))
   \<and> ResolveRequestType ReqPost content scheme = ReqPost
   \<and> ResolveRequestType ReqGet content scheme = ReqGet
   \<and> ResolveRequestType ReqPut content scheme = ReqPut
   \<and> ResolveRequestType ReqDelete content scheme = ReqDelete
   \<and> ResolveRequestType ReqAny [] ''http'' = ReqGet
   \<and> ResolveRequestType ReqAny ''x'' ''http'' = ReqPost
   \<and> ResolveRequestType ReqAny [] ''post'' = ReqPost"
  by (auto simp: ResolveRequestType_def)

end
